theory Spec2Isabelle
  imports Complex_Main "HOL-Library.AList"
begin

section \<open>The localStorage-backed crypto store\<close>

text \<open>
  A shallow embedding of \<^verbatim>\<open>LocalStorageCryptoStore\<close>: the class keeps end-to-end
  encryption metadata in a synchronous key-value \<^verbatim>\<open>Storage\<close>, every value being
  JSON text.

  Conventions of the model.
  \<^item> A JavaScript string is a \<open>string\<close>, one \<open>char\<close> per code unit; \<open>slice\<close> with
    non-negative bounds is \<open>take\<close>/\<open>drop\<close>.
  \<^item> A stored text is kept as what \<^verbatim>\<open>JSON.parse\<close> makes of it: \<open>Valid v\<close> when it
    parses to the value \<open>v\<close>, \<open>Invalid s\<close> when parsing the text \<open>s\<close> throws. Writing
    \<^verbatim>\<open>JSON.stringify(v)\<close> therefore stores \<open>Valid v\<close>. A parsed object is the list
    of its own properties in enumeration order.
  \<^item> An object that the module builds is the list of its own properties in enumeration
    order (array indices ascending, then the other names in order of creation) and
    its prototype, which an assignment to the name \<^verbatim>\<open>__proto__\<close> changes. The names
    of the methods of \<^verbatim>\<open>Object.prototype\<close> and \<^verbatim>\<open>Array.prototype\<close>, which a
    property read and the \<^verbatim>\<open>in\<close> operator find, belong to the engine and are a
    parameter, the \<open>host\<close>.
  \<^item> The \<^verbatim>\<open>Storage\<close> is the list of its entries in the order of \<^verbatim>\<open>key(i)\<close>;
    \<^verbatim>\<open>setItem\<close> overwrites in place or appends, \<^verbatim>\<open>removeItem\<close> deletes.
  \<^item> A \<^verbatim>\<open>TypeError\<close> that the module (strict-mode code) can raise is a value of
    type \<open>error\<close>.
  \<^item> Methods of the class take the storage and return their result together with
    the storage they leave behind; methods that only write return the storage (or the
    error they raise).
\<close>

subsection \<open>JSON values\<close>

datatype json =
    JNull
  | JBool bool
  | JNumber rat
  | JString string
  | JArray "json list"
  | JObject "(string \<times> json) list"

datatype error = TypeError

text \<open>Truthiness, for \<^verbatim>\<open>a || b\<close>; \<^verbatim>\<open>a ?? b\<close> tests for \<^verbatim>\<open>null\<close> only.\<close>

fun truthy :: "json \<Rightarrow> bool" where
  "truthy JNull = False"
| "truthy (JBool b) = b"
| "truthy (JNumber x) = (x \<noteq> 0)"
| "truthy (JString s) = (s \<noteq> [])"
| "truthy (JArray xs) = True"
| "truthy (JObject m) = True"

definition or_else :: "json \<Rightarrow> json \<Rightarrow> json" where
  "or_else a b = (if truthy a then a else b)"

definition nullish_or :: "json \<Rightarrow> json \<Rightarrow> json" where
  "nullish_or a b = (if a = JNull then b else a)"

text \<open>The decimal name of an array index.\<close>

definition digit_char :: "nat \<Rightarrow> char" where
  "digit_char d = ''0123456789'' ! d"

fun decimal :: "nat \<Rightarrow> string" where
  "decimal n = (if n < 10 then [digit_char n] else decimal (n div 10) @ [digit_char (n mod 10)])"

declare decimal.simps [simp del]

text \<open>
  \<^verbatim>\<open>Object.entries\<close>: the own enumerable properties. An array and a string list
  their indices, a number and a boolean have none. On \<^verbatim>\<open>null\<close> JavaScript throws;
  every call in this module is guarded by \<^verbatim>\<open>|| {}\<close> or \<^verbatim>\<open>?? {}\<close>, so that case is
  never reached, and is given no entries.
\<close>

fun Object_entries :: "json \<Rightarrow> (string \<times> json) list" where
  "Object_entries (JObject m) = m"
| "Object_entries (JArray xs) = zip (map decimal [0..<length xs]) xs"
| "Object_entries (JString s) = zip (map decimal [0..<length s]) (map (\<lambda>c. JString [c]) s)"
| "Object_entries (JNumber x) = []"
| "Object_entries (JBool b) = []"
| "Object_entries JNull = []"

definition Object_keys :: "json \<Rightarrow> string list" where
  "Object_keys v = map fst (Object_entries v)"

definition Object_values :: "json \<Rightarrow> json list" where
  "Object_values v = map snd (Object_entries v)"

subsection \<open>Objects at run time\<close>

text \<open>
  A property name is an array index when it is the decimal name of a number below
  4294967295.
\<close>

definition digitsValue :: "string \<Rightarrow> nat" where
  "digitsValue k = foldl (\<lambda>a c. 10 * a + (of_char c - 48)) 0 k"

definition arrayIndex :: "string \<Rightarrow> nat option" where
  "arrayIndex k =
     (let n = digitsValue k in if n < 4294967295 \<and> decimal n = k then Some n else None)"

text \<open>
  A new own property is enumerated before an existing one when it is an array index
  and the existing one is no array index, or a greater one.
\<close>

definition precedes :: "string \<Rightarrow> string \<Rightarrow> bool" where
  "precedes k k' =
     (case arrayIndex k of
        None \<Rightarrow> False
      | Some i \<Rightarrow> (case arrayIndex k' of None \<Rightarrow> True | Some j \<Rightarrow> i < j))"

fun insert_prop :: "string \<Rightarrow> json \<Rightarrow> (string \<times> json) list \<Rightarrow> (string \<times> json) list" where
  "insert_prop k v [] = [(k, v)]"
| "insert_prop k v (p # ps) =
     (if precedes k (fst p) then (k, v) # p # ps else p # insert_prop k v ps)"

text \<open>
  The prototype of an object: \<^verbatim>\<open>Object.prototype\<close> (that of an object literal), none,
  or a parsed value that an assignment to \<^verbatim>\<open>__proto__\<close> has installed.
\<close>

datatype prototype = ObjectPrototype | NullPrototype | ValuePrototype json

record jsobject =
  ownProps :: "(string \<times> json) list"
  prototypeOf :: prototype

definition emptyObject :: jsobject where
  "emptyObject = \<lparr>ownProps = [], prototypeOf = ObjectPrototype\<rparr>"

text \<open>
  Whether the first property named \<^verbatim>\<open>__proto__\<close> on the prototype chain is the
  accessor of \<^verbatim>\<open>Object.prototype\<close>: not so without a prototype, and not so behind a
  parsed object that has an own property of that name.
\<close>

fun inheritsProtoAccessor :: "prototype \<Rightarrow> bool" where
  "inheritsProtoAccessor ObjectPrototype = True"
| "inheritsProtoAccessor NullPrototype = False"
| "inheritsProtoAccessor (ValuePrototype (JObject p)) = (''__proto__'' \<notin> set (map fst p))"
| "inheritsProtoAccessor (ValuePrototype v) = True"

text \<open>
  The setter of that accessor: an object or \<^verbatim>\<open>null\<close> becomes the prototype, any other
  value is ignored.
\<close>

fun setPrototype :: "jsobject \<Rightarrow> json \<Rightarrow> jsobject" where
  "setPrototype obj (JObject p) = obj\<lparr>prototypeOf := ValuePrototype (JObject p)\<rparr>"
| "setPrototype obj (JArray xs) = obj\<lparr>prototypeOf := ValuePrototype (JArray xs)\<rparr>"
| "setPrototype obj JNull = obj\<lparr>prototypeOf := NullPrototype\<rparr>"
| "setPrototype obj v = obj"

text \<open>
  The assignment \<^verbatim>\<open>obj[k] = v\<close>: an own property is overwritten where it stands;
  otherwise the name \<^verbatim>\<open>__proto__\<close> reaches the setter, when the accessor is
  inherited; otherwise a new own property is created.
\<close>

definition assign :: "jsobject \<Rightarrow> string \<Rightarrow> json \<Rightarrow> jsobject" where
  "assign obj k v =
     (if k \<in> set (map fst (ownProps obj)) then obj\<lparr>ownProps := AList.update k v (ownProps obj)\<rparr>
      else if k = ''__proto__'' \<and> inheritsProtoAccessor (prototypeOf obj) then setPrototype obj v
      else obj\<lparr>ownProps := insert_prop k v (ownProps obj)\<rparr>)"

text \<open>
  \<^verbatim>\<open>delete obj[k]\<close> removes an own property; \<^verbatim>\<open>JSON.stringify\<close> writes the own
  properties.
\<close>

definition delete_prop :: "jsobject \<Rightarrow> string \<Rightarrow> jsobject" where
  "delete_prop obj k = obj\<lparr>ownProps := AList.delete k (ownProps obj)\<rparr>"

definition stringify :: "jsobject \<Rightarrow> json" where
  "stringify obj = JObject (ownProps obj)"

text \<open>
  The engine: the names of the methods of \<^verbatim>\<open>Object.prototype\<close> (such as
  \<^verbatim>\<open>constructor\<close> and \<^verbatim>\<open>toString\<close>) and of \<^verbatim>\<open>Array.prototype\<close>. The accessor
  \<^verbatim>\<open>__proto__\<close> of \<^verbatim>\<open>Object.prototype\<close> is modelled apart.
\<close>

record host =
  objectPrototypeNames :: "string list"
  arrayPrototypeNames :: "string list"

text \<open>
  What a property read can give: a parsed value, \<^verbatim>\<open>undefined\<close>, a built-in method,
  or \<^verbatim>\<open>Object.prototype\<close> itself.
\<close>

datatype jsvalue = Value json | Undefined | Builtin string | ObjectPrototypeObject

definition nullishValue :: "jsvalue \<Rightarrow> jsvalue \<Rightarrow> jsvalue" where
  "nullishValue a b = (if a = Undefined \<or> a = Value JNull then b else a)"

text \<open>The own properties of an array: its elements and \<^verbatim>\<open>length\<close>.\<close>

definition arrayOwn :: "json list \<Rightarrow> string \<Rightarrow> json option" where
  "arrayOwn xs k =
     (if k = ''length'' then Some (JNumber (of_nat (length xs)))
      else (case arrayIndex k of
              None \<Rightarrow> None
            | Some i \<Rightarrow> if i < length xs then Some (xs ! i) else None))"

text \<open>
  A read that reaches \<^verbatim>\<open>Object.prototype\<close>: the getter of \<^verbatim>\<open>__proto__\<close> gives the
  prototype of the object read from.
\<close>

definition fromObjectPrototype :: "host \<Rightarrow> prototype \<Rightarrow> string \<Rightarrow> jsvalue" where
  "fromObjectPrototype h pr k =
     (if k = ''__proto__''
      then (case pr of
              ObjectPrototype \<Rightarrow> ObjectPrototypeObject
            | NullPrototype \<Rightarrow> Value JNull
            | ValuePrototype v \<Rightarrow> Value v)
      else if k \<in> set (objectPrototypeNames h) then Builtin k
      else Undefined)"

text \<open>The read \<^verbatim>\<open>obj[k]\<close>: the own property, else the first one on the prototype chain.\<close>

definition get_prop :: "host \<Rightarrow> jsobject \<Rightarrow> string \<Rightarrow> jsvalue" where
  "get_prop h obj k =
     (case map_of (ownProps obj) k of
        Some v \<Rightarrow> Value v
      | None \<Rightarrow>
          (case prototypeOf obj of
             NullPrototype \<Rightarrow> Undefined
           | ObjectPrototype \<Rightarrow> fromObjectPrototype h (prototypeOf obj) k
           | ValuePrototype (JObject p) \<Rightarrow>
               (case map_of p k of
                  Some v \<Rightarrow> Value v
                | None \<Rightarrow> fromObjectPrototype h (prototypeOf obj) k)
           | ValuePrototype (JArray xs) \<Rightarrow>
               (case arrayOwn xs k of
                  Some v \<Rightarrow> Value v
                | None \<Rightarrow>
                    if k \<in> set (arrayPrototypeNames h) then Builtin k
                    else fromObjectPrototype h (prototypeOf obj) k)
           | ValuePrototype v \<Rightarrow> fromObjectPrototype h (prototypeOf obj) k))"

text \<open>
  \<^verbatim>\<open>k in v\<close> for a parsed value \<open>v\<close>: the own and the inherited properties of an object
  or an array, a \<^verbatim>\<open>TypeError\<close> when \<open>v\<close> is not an object.
\<close>

fun has_prop :: "host \<Rightarrow> string \<Rightarrow> json \<Rightarrow> error + bool" where
  "has_prop h k (JObject m) =
     Inr (k \<in> set (map fst m) \<or> k = ''__proto__'' \<or> k \<in> set (objectPrototypeNames h))"
| "has_prop h k (JArray xs) =
     Inr (arrayOwn xs k \<noteq> None \<or> k \<in> set (arrayPrototypeNames h)
          \<or> k = ''__proto__'' \<or> k \<in> set (objectPrototypeNames h))"
| "has_prop h k v = Inl TypeError"

subsection \<open>The storage\<close>

datatype stored = Valid json | Invalid string

type_synonym storage = "(string \<times> stored) list"

definition getItem :: "storage \<Rightarrow> string \<Rightarrow> stored option" where
  "getItem store key = map_of store key"

definition setItem :: "storage \<Rightarrow> string \<Rightarrow> stored \<Rightarrow> storage" where
  "setItem store key val = AList.update key val store"

definition removeItem :: "storage \<Rightarrow> string \<Rightarrow> storage" where
  "removeItem store key = AList.delete key store"

text \<open>The keys \<^verbatim>\<open>store.key(0)\<close>, ..., \<^verbatim>\<open>store.key(store.length - 1)\<close> that a scan visits.\<close>

definition keys :: "storage \<Rightarrow> string list" where
  "keys store = map fst store"

definition startsWith :: "string \<Rightarrow> string \<Rightarrow> bool" where
  "startsWith s p = (take (length p) s = p)"

text \<open>
  \<^verbatim>\<open>getJsonItem\<close>: \<^verbatim>\<open>JSON.parse(null)\<close> is \<^verbatim>\<open>null\<close>, and a parse error is caught and
  logged, the function then returning \<^verbatim>\<open>null\<close>.
\<close>

definition getJsonItem :: "storage \<Rightarrow> string \<Rightarrow> json" where
  "getJsonItem store key =
     (case getItem store key of
        None \<Rightarrow> JNull
      | Some (Valid v) \<Rightarrow> v
      | Some (Invalid s) \<Rightarrow> JNull)"

definition setJsonItem :: "storage \<Rightarrow> string \<Rightarrow> json \<Rightarrow> storage" where
  "setJsonItem store key val = setItem store key (Valid val)"

subsection \<open>Key names\<close>

definition E2E_PREFIX :: string where
  "E2E_PREFIX = ''crypto.''"

definition KEY_END_TO_END_MIGRATION_STATE :: string where
  "KEY_END_TO_END_MIGRATION_STATE = E2E_PREFIX @ ''migration''"

definition KEY_END_TO_END_ACCOUNT :: string where
  "KEY_END_TO_END_ACCOUNT = E2E_PREFIX @ ''account''"

definition KEY_CROSS_SIGNING_KEYS :: string where
  "KEY_CROSS_SIGNING_KEYS = E2E_PREFIX @ ''cross_signing_keys''"

definition KEY_INBOUND_SESSION_PREFIX :: string where
  "KEY_INBOUND_SESSION_PREFIX = E2E_PREFIX @ ''inboundgroupsessions/''"

definition KEY_INBOUND_SESSION_WITHHELD_PREFIX :: string where
  "KEY_INBOUND_SESSION_WITHHELD_PREFIX = E2E_PREFIX @ ''inboundgroupsessions.withheld/''"

definition KEY_ROOMS_PREFIX :: string where
  "KEY_ROOMS_PREFIX = E2E_PREFIX @ ''rooms/''"

definition KEY_SESSIONS_NEEDING_BACKUP :: string where
  "KEY_SESSIONS_NEEDING_BACKUP = E2E_PREFIX @ ''sessionsneedingbackup''"

definition keyEndToEndSessions :: "string \<Rightarrow> string" where
  "keyEndToEndSessions deviceKey = E2E_PREFIX @ ''sessions/'' @ deviceKey"

definition keyEndToEndInboundGroupSession :: "string \<Rightarrow> string \<Rightarrow> string" where
  "keyEndToEndInboundGroupSession senderKey sessionId =
     KEY_INBOUND_SESSION_PREFIX @ senderKey @ ''/'' @ sessionId"

definition keyEndToEndInboundGroupSessionWithheld :: "string \<Rightarrow> string \<Rightarrow> string" where
  "keyEndToEndInboundGroupSessionWithheld senderKey sessionId =
     KEY_INBOUND_SESSION_WITHHELD_PREFIX @ senderKey @ ''/'' @ sessionId"

definition keyEndToEndRoomsPrefix :: "string \<Rightarrow> string" where
  "keyEndToEndRoomsPrefix roomId = KEY_ROOMS_PREFIX @ roomId"

definition keySecretStorePrivateKey :: "string \<Rightarrow> string" where
  "keySecretStorePrivateKey type = E2E_PREFIX @ ''ssss_cache.'' @ type"

subsection \<open>Existence and migration state\<close>

definition exists_store :: "storage \<Rightarrow> bool" where
  "exists_store store = list_ex (\<lambda>k. startsWith k E2E_PREFIX) (keys store)"

definition containsData :: "storage \<Rightarrow> bool \<times> storage" where
  "containsData store = (exists_store store, store)"

text \<open>
  \<^verbatim>\<open>MigrationState.NOT_STARTED\<close> is declared in \<^verbatim>\<open>base.ts\<close>; it is a parameter here.
\<close>

definition getMigrationState :: "json \<Rightarrow> storage \<Rightarrow> json \<times> storage" where
  "getMigrationState NOT_STARTED store =
     (nullish_or (getJsonItem store KEY_END_TO_END_MIGRATION_STATE) NOT_STARTED, store)"

definition setMigrationState :: "json \<Rightarrow> storage \<Rightarrow> storage" where
  "setMigrationState migrationState store =
     setJsonItem store KEY_END_TO_END_MIGRATION_STATE migrationState"

subsection \<open>Olm sessions\<close>

fun countLoop :: "storage \<Rightarrow> string list \<Rightarrow> nat \<Rightarrow> nat" where
  "countLoop store [] count = count"
| "countLoop store (key # rest) count =
     (if startsWith key (keyEndToEndSessions [])
      then (let sessions = getJsonItem store key
            in countLoop store rest (count + length (Object_keys (nullish_or sessions (JObject [])))))
      else countLoop store rest count)"

definition countEndToEndSessions :: "storage \<Rightarrow> nat \<times> storage" where
  "countEndToEndSessions store = (countLoop store (keys store) 0, store)"

text \<open>
  The loop of \<^verbatim>\<open>_getEndToEndSessions\<close>: each entry is assigned into \<^verbatim>\<open>fixedSessions\<close>,
  a bare string wrapped as \<^verbatim>\<open>{session: val}\<close>.
\<close>

definition fixSession :: "json \<Rightarrow> json" where
  "fixSession val = (case val of JString s \<Rightarrow> JObject [(''session'', val)] | _ \<Rightarrow> val)"

fun fixLoop :: "(string \<times> json) list \<Rightarrow> jsobject \<Rightarrow> jsobject" where
  "fixLoop [] fixedSessions = fixedSessions"
| "fixLoop ((sid, val) # rest) fixedSessions =
     fixLoop rest (assign fixedSessions sid (fixSession val))"

definition priv_getEndToEndSessions :: "storage \<Rightarrow> string \<Rightarrow> jsobject" where
  "priv_getEndToEndSessions store deviceKey =
     (let sessions = getJsonItem store (keyEndToEndSessions deviceKey)
      in fixLoop (Object_entries (or_else sessions (JObject []))) emptyObject)"

definition getEndToEndSession ::
    "host \<Rightarrow> string \<Rightarrow> string \<Rightarrow> storage \<Rightarrow> jsvalue \<times> storage" where
  "getEndToEndSession h deviceKey sessionId store =
     (let sessions = priv_getEndToEndSessions store deviceKey
      in (nullishValue (get_prop h sessions sessionId) (Value (JObject [])), store))"

definition getEndToEndSessions :: "string \<Rightarrow> storage \<Rightarrow> jsobject \<times> storage" where
  "getEndToEndSessions deviceKey store = (priv_getEndToEndSessions store deviceKey, store)"

definition storeEndToEndSession :: "string \<Rightarrow> string \<Rightarrow> json \<Rightarrow> storage \<Rightarrow> storage" where
  "storeEndToEndSession deviceKey sessionId sessionInfo store =
     (let sessions = priv_getEndToEndSessions store deviceKey;
          sessions = assign sessions sessionId sessionInfo
      in setJsonItem store (keyEndToEndSessions deviceKey) (stringify sessions))"

text \<open>
  \<^verbatim>\<open>String.prototype.split\<close> on a one-character separator, and the element at
  index 1 of an array (\<^verbatim>\<open>undefined\<close> when there is none, which string concatenation
  renders as the text \<^verbatim>\<open>undefined\<close>).
\<close>

fun split :: "char \<Rightarrow> string \<Rightarrow> string list" where
  "split c [] = ['''']"
| "split c (x # xs) =
     (if x = c then '''' # split c xs
      else (let r = split c xs in (x # hd r) # tl r))"

fun second :: "string list \<Rightarrow> string" where
  "second (a # b # rest) = b"
| "second xs = ''undefined''"

text \<open>
  A loop that can leave its function by \<^verbatim>\<open>return\<close>: \<open>Returned r\<close> when it did,
  \<open>Running r\<close> when it ran to its end with the accumulator \<open>r\<close>.
\<close>

datatype 'a flow = Returned 'a | Running 'a

text \<open>
  \<^verbatim>\<open>SESSION_BATCH_SIZE\<close> is declared in \<^verbatim>\<open>base.ts\<close>; it is the parameter
  \<open>batchSize\<close> of both batch readers.
\<close>

fun pushSessions :: "nat \<Rightarrow> 'a list \<Rightarrow> 'a list \<Rightarrow> 'a list flow" where
  "pushSessions batchSize [] result = Running result"
| "pushSessions batchSize (session # rest) result =
     (let result = result @ [session]
      in if length result \<ge> batchSize then Returned result
         else pushSessions batchSize rest result)"

fun sessionsBatchLoop :: "nat \<Rightarrow> storage \<Rightarrow> string list \<Rightarrow> json list \<Rightarrow> json list flow" where
  "sessionsBatchLoop batchSize store [] result = Running result"
| "sessionsBatchLoop batchSize store (key # rest) result =
     (if startsWith key (keyEndToEndSessions [])
      then (let deviceKey = second (split CHR ''/'' key)
            in case pushSessions batchSize
                      (map snd (ownProps (priv_getEndToEndSessions store deviceKey))) result of
                 Returned r \<Rightarrow> Returned r
               | Running r \<Rightarrow> sessionsBatchLoop batchSize store rest r)
      else sessionsBatchLoop batchSize store rest result)"

definition getEndToEndSessionsBatch :: "nat \<Rightarrow> storage \<Rightarrow> json list option \<times> storage" where
  "getEndToEndSessionsBatch batchSize store =
     (case sessionsBatchLoop batchSize store (keys store) [] of
        Returned result \<Rightarrow> Some result
      | Running result \<Rightarrow> if length result = 0 then None else Some result,
      store)"

definition deleteEndToEndSession :: "storage \<Rightarrow> string \<times> string \<Rightarrow> storage" where
  "deleteEndToEndSession store p =
     (case p of (deviceKey, sessionId) \<Rightarrow>
        (let deviceSessions = priv_getEndToEndSessions store deviceKey;
             deviceSessions = delete_prop deviceSessions sessionId
         in if length (map fst (ownProps deviceSessions)) = 0
            then removeItem store (keyEndToEndSessions deviceKey)
            else setJsonItem store (keyEndToEndSessions deviceKey) (stringify deviceSessions)))"

definition deleteEndToEndSessionsBatch :: "(string \<times> string) list \<Rightarrow> storage \<Rightarrow> storage" where
  "deleteEndToEndSessionsBatch sessions store = foldl deleteEndToEndSession store sessions"

subsection \<open>Inbound group sessions\<close>

definition getEndToEndInboundGroupSession ::
    "string \<Rightarrow> string \<Rightarrow> storage \<Rightarrow> (json \<times> json) \<times> storage" where
  "getEndToEndInboundGroupSession senderCurve25519Key sessionId store =
     ((getJsonItem store (keyEndToEndInboundGroupSession senderCurve25519Key sessionId),
       getJsonItem store (keyEndToEndInboundGroupSessionWithheld senderCurve25519Key sessionId)),
      store)"

definition storeEndToEndInboundGroupSession ::
    "string \<Rightarrow> string \<Rightarrow> json \<Rightarrow> storage \<Rightarrow> storage" where
  "storeEndToEndInboundGroupSession senderCurve25519Key sessionId sessionData store =
     setJsonItem store (keyEndToEndInboundGroupSession senderCurve25519Key sessionId) sessionData"

text \<open>
  \<^verbatim>\<open>ISession\<close> and \<^verbatim>\<open>SessionExtended\<close> are declared in \<^verbatim>\<open>base.ts\<close>; these are
  the fields this module reads and writes.
\<close>

record ISession =
  senderKey :: string
  sessionId :: string

record SessionExtended = ISession +
  sessionData :: json
  needsBackup :: bool

definition countEndToEndInboundGroupSessions :: "storage \<Rightarrow> nat \<times> storage" where
  "countEndToEndInboundGroupSessions store =
     (length (filter (\<lambda>key. startsWith key KEY_INBOUND_SESSION_PREFIX) (keys store)), store)"

fun inboundBatchLoop ::
    "host \<Rightarrow> nat \<Rightarrow> storage \<Rightarrow> json \<Rightarrow> string list \<Rightarrow> SessionExtended list
       \<Rightarrow> error + SessionExtended list flow" where
  "inboundBatchLoop h batchSize store sessionsNeedingBackup [] result = Inr (Running result)"
| "inboundBatchLoop h batchSize store sessionsNeedingBackup (key # rest) result =
     (if startsWith key KEY_INBOUND_SESSION_PREFIX
      then (let key2 = drop (length KEY_INBOUND_SESSION_PREFIX) key
            in case has_prop h key2 sessionsNeedingBackup of
                 Inl e \<Rightarrow> Inl e
               | Inr nb \<Rightarrow>
                   (let result = result @
                          [\<lparr>senderKey = take 43 key2,
                            sessionId = drop 44 key2,
                            sessionData = getJsonItem store key,
                            needsBackup = nb\<rparr>]
                    in if length result \<ge> batchSize then Inr (Returned result)
                       else inboundBatchLoop h batchSize store sessionsNeedingBackup rest result))
      else inboundBatchLoop h batchSize store sessionsNeedingBackup rest result)"

definition getEndToEndInboundGroupSessionsBatch ::
    "host \<Rightarrow> nat \<Rightarrow> storage \<Rightarrow> (error + SessionExtended list option) \<times> storage" where
  "getEndToEndInboundGroupSessionsBatch h batchSize store =
     (let sessionsNeedingBackup =
            or_else (getJsonItem store KEY_SESSIONS_NEEDING_BACKUP) (JObject [])
      in (case inboundBatchLoop h batchSize store sessionsNeedingBackup (keys store) [] of
            Inl e \<Rightarrow> Inl e
          | Inr (Returned result) \<Rightarrow> Inr (Some result)
          | Inr (Running result) \<Rightarrow> Inr (if length result = 0 then None else Some result),
          store))"

definition deleteEndToEndInboundGroupSessionsBatch ::
    "ISession list \<Rightarrow> storage \<Rightarrow> storage" where
  "deleteEndToEndInboundGroupSessionsBatch sessions store =
     foldl (\<lambda>store session.
              removeItem store
                (keyEndToEndInboundGroupSession (senderKey session) (sessionId session)))
           store sessions"

subsection \<open>Rooms, backup flags, account and keys\<close>

fun roomsLoop :: "storage \<Rightarrow> string list \<Rightarrow> jsobject \<Rightarrow> jsobject" where
  "roomsLoop store [] result = result"
| "roomsLoop store (key # rest) result =
     (let prefix = keyEndToEndRoomsPrefix []
      in if startsWith key prefix
         then (let roomId = drop (length prefix) key
               in roomsLoop store rest (assign result roomId (getJsonItem store key)))
         else roomsLoop store rest result)"

definition getEndToEndRooms :: "storage \<Rightarrow> jsobject \<times> storage" where
  "getEndToEndRooms store = (roomsLoop store (keys store) emptyObject, store)"

text \<open>
  The assignment \<^verbatim>\<open>sessionsNeedingBackup[k] = true\<close>, where \<open>k\<close> always contains the
  separator: a new or overwritten property of an object; on an array a property that
  is no element (and that \<^verbatim>\<open>JSON.stringify\<close> leaves out); a \<^verbatim>\<open>TypeError\<close> on a
  string, a number or a boolean.
\<close>

fun markFlag :: "json \<Rightarrow> string \<Rightarrow> error + json" where
  "markFlag (JObject m) k = Inr (JObject (AList.update k (JBool True) m))"
| "markFlag (JArray xs) k = Inr (JArray xs)"
| "markFlag v k = Inl TypeError"

fun markLoop :: "json \<Rightarrow> ISession list \<Rightarrow> error + json" where
  "markLoop sessionsNeedingBackup [] = Inr sessionsNeedingBackup"
| "markLoop sessionsNeedingBackup (session # rest) =
     (case markFlag sessionsNeedingBackup (senderKey session @ ''/'' @ sessionId session) of
        Inl e \<Rightarrow> Inl e
      | Inr sessionsNeedingBackup \<Rightarrow> markLoop sessionsNeedingBackup rest)"

definition markSessionsNeedingBackup :: "ISession list \<Rightarrow> storage \<Rightarrow> error + storage" where
  "markSessionsNeedingBackup sessions store =
     (let sessionsNeedingBackup =
            or_else (getJsonItem store KEY_SESSIONS_NEEDING_BACKUP) (JObject [])
      in case markLoop sessionsNeedingBackup sessions of
           Inl e \<Rightarrow> Inl e
         | Inr sessionsNeedingBackup \<Rightarrow>
             Inr (setJsonItem store KEY_SESSIONS_NEEDING_BACKUP sessionsNeedingBackup))"

definition deleteAllData :: "storage \<Rightarrow> storage" where
  "deleteAllData store = removeItem store KEY_END_TO_END_ACCOUNT"

definition getAccount :: "storage \<Rightarrow> json \<times> storage" where
  "getAccount store = (getJsonItem store KEY_END_TO_END_ACCOUNT, store)"

definition storeAccount :: "string \<Rightarrow> storage \<Rightarrow> storage" where
  "storeAccount accountPickle store =
     setJsonItem store KEY_END_TO_END_ACCOUNT (JString accountPickle)"

definition getCrossSigningKeys :: "storage \<Rightarrow> json \<times> storage" where
  "getCrossSigningKeys store = (getJsonItem store KEY_CROSS_SIGNING_KEYS, store)"

definition getSecretStorePrivateKey :: "string \<Rightarrow> storage \<Rightarrow> json \<times> storage" where
  "getSecretStorePrivateKey type store = (getJsonItem store (keySecretStorePrivateKey type), store)"

definition storeSecretStorePrivateKey :: "string \<Rightarrow> json \<Rightarrow> storage \<Rightarrow> storage" where
  "storeSecretStorePrivateKey type key store =
     setJsonItem store (keySecretStorePrivateKey type) key"

section \<open>Notions used in the statements\<close>

text \<open>
  The sessions a scan of \<^verbatim>\<open>getEndToEndSessionsBatch\<close> meets, in the order it meets
  them: for every key under the sessions prefix, in storage order, the values of the
  mapping that \<^verbatim>\<open>_getEndToEndSessions\<close> decodes for the device key the scan takes
  from that key.
\<close>

definition scannedSessions :: "storage \<Rightarrow> json list" where
  "scannedSessions store =
     concat (map (\<lambda>key. map snd (ownProps
                    (priv_getEndToEndSessions store (second (split CHR ''/'' key)))))
                 (filter (\<lambda>key. startsWith key (keyEndToEndSessions [])) (keys store)))"

text \<open>The number of sessions stored under one key, as \<^verbatim>\<open>countEndToEndSessions\<close> counts them.\<close>

definition storedCount :: "storage \<Rightarrow> string \<Rightarrow> nat" where
  "storedCount store key = length (Object_keys (nullish_or (getJsonItem store key) (JObject [])))"

text \<open>Every key under the sessions prefix holds at least one session.\<close>

definition noEmptyContainer :: "storage \<Rightarrow> bool" where
  "noEmptyContainer store =
     list_all (\<lambda>key. startsWith key (keyEndToEndSessions []) \<longrightarrow> storedCount store key \<noteq> 0)
              (keys store)"

text \<open>The methods of the class that write to the storage, and a call of one.\<close>

datatype operation =
    SetMigrationState json
  | StoreEndToEndSession string string json
  | DeleteEndToEndSessionsBatch "(string \<times> string) list"
  | StoreEndToEndInboundGroupSession string string json
  | DeleteEndToEndInboundGroupSessionsBatch "ISession list"
  | MarkSessionsNeedingBackup "ISession list"
  | DeleteAllData
  | StoreAccount string
  | StoreSecretStorePrivateKey string json

fun perform :: "operation \<Rightarrow> storage \<Rightarrow> error + storage" where
  "perform (SetMigrationState v) store = Inr (setMigrationState v store)"
| "perform (StoreEndToEndSession d s v) store = Inr (storeEndToEndSession d s v store)"
| "perform (DeleteEndToEndSessionsBatch xs) store = Inr (deleteEndToEndSessionsBatch xs store)"
| "perform (StoreEndToEndInboundGroupSession k s v) store =
     Inr (storeEndToEndInboundGroupSession k s v store)"
| "perform (DeleteEndToEndInboundGroupSessionsBatch xs) store =
     Inr (deleteEndToEndInboundGroupSessionsBatch xs store)"
| "perform (MarkSessionsNeedingBackup xs) store = markSessionsNeedingBackup xs store"
| "perform DeleteAllData store = Inr (deleteAllData store)"
| "perform (StoreAccount p) store = Inr (storeAccount p store)"
| "perform (StoreSecretStorePrivateKey t v) store = Inr (storeSecretStorePrivateKey t v store)"

text \<open>A call that stores no session under the name \<^verbatim>\<open>__proto__\<close>.\<close>

fun plainOperation :: "operation \<Rightarrow> bool" where
  "plainOperation (StoreEndToEndSession d s v) = (s \<noteq> ''__proto__'')"
| "plainOperation op = True"

text \<open>The name under which \<^verbatim>\<open>markSessionsNeedingBackup\<close> flags a session.\<close>

definition flagKey :: "ISession \<Rightarrow> string" where
  "flagKey session = senderKey session @ ''/'' @ sessionId session"

text \<open>The keys that the scans of inbound group sessions visit, in storage order.\<close>

definition inboundKeys :: "storage \<Rightarrow> string list" where
  "inboundKeys store = filter (\<lambda>key. startsWith key KEY_INBOUND_SESSION_PREFIX) (keys store)"

text \<open>
  A list of names in the enumeration order of an object: no name stands behind one that
  it would precede as a new property.
\<close>

definition orderedKeys :: "string list \<Rightarrow> bool" where
  "orderedKeys ks = sorted_wrt (\<lambda>a b. \<not> precedes b a) ks"

section \<open>Basic facts\<close>

subsection \<open>Key names\<close>

lemmas key_defs = E2E_PREFIX_def KEY_END_TO_END_MIGRATION_STATE_def KEY_END_TO_END_ACCOUNT_def
  KEY_CROSS_SIGNING_KEYS_def KEY_INBOUND_SESSION_PREFIX_def KEY_INBOUND_SESSION_WITHHELD_PREFIX_def
  KEY_ROOMS_PREFIX_def KEY_SESSIONS_NEEDING_BACKUP_def keyEndToEndSessions_def
  keyEndToEndInboundGroupSession_def keyEndToEndInboundGroupSessionWithheld_def
  keyEndToEndRoomsPrefix_def keySecretStorePrivateKey_def


lemma keyEndToEndSessions_inj: "keyEndToEndSessions D = keyEndToEndSessions D' \<longleftrightarrow> D = D'"
  by (simp add: keyEndToEndSessions_def)



subsection \<open>Reading and writing the storage\<close>

lemma getItem_setJsonItem:
  "getItem (setJsonItem store key v) k = (if k = key then Some (Valid v) else getItem store k)"
  by (simp add: setJsonItem_def setItem_def getItem_def AList.update_conv')

lemma getItem_removeItem:
  "getItem (removeItem store key) k = (if k = key then None else getItem store k)"
  by (simp add: removeItem_def getItem_def AList.delete_conv')

lemma getJsonItem_setJsonItem: "getJsonItem (setJsonItem store key v) key = v"
  by (simp add: getJsonItem_def setJsonItem_def setItem_def getItem_def AList.update_conv')

lemma getJsonItem_setJsonItem_other:
  "k \<noteq> key \<Longrightarrow> getJsonItem (setJsonItem store key v) k = getJsonItem store k"
  by (simp add: getJsonItem_def getItem_setJsonItem)

lemma getJsonItem_removeItem:
  "getJsonItem (removeItem store key) k = (if k = key then JNull else getJsonItem store k)"
  by (simp add: getJsonItem_def getItem_removeItem)

lemma setItem_keys: "key \<in> set (keys (setItem store key v))"
  by (simp add: keys_def setItem_def AList.update_keys)

lemma keys_setJsonItem: "set (keys (setJsonItem store key v)) = insert key (set (keys store))"
  by (simp add: keys_def setJsonItem_def setItem_def AList.dom_update)

lemma keys_removeItem: "keys (removeItem store key) = removeAll key (keys store)"
  by (simp add: keys_def removeItem_def AList.delete_keys)

lemma getItem_in_keys: "getItem store key = Some v \<Longrightarrow> key \<in> set (keys store)"
  by (auto simp: getItem_def keys_def dest!: map_of_SomeD intro: rev_image_eqI)

lemma getItem_absent: "key \<notin> set (keys store) \<Longrightarrow> getItem store key = None"
  by (simp add: getItem_def keys_def map_of_eq_None_iff)

lemma removeItem_absent: "getItem store key = None \<Longrightarrow> removeItem store key = store"
  by (simp add: removeItem_def getItem_def map_of_eq_None_iff)


lemma setJsonItem_twice: "setJsonItem (setJsonItem store key v) key v = setJsonItem store key v"
  by (simp add: setJsonItem_def setItem_def)

lemma getJsonItem_invalid:
  "getItem store key = Some (Invalid s) \<Longrightarrow> getJsonItem store key = JNull"
  by (simp add: getJsonItem_def)

lemma getJsonItem_invalid_removed:
  "getItem store key = Some (Invalid s) \<Longrightarrow>
     getJsonItem (removeItem store key) k = getJsonItem store k"
  by (simp add: getJsonItem_removeItem getJsonItem_invalid)

subsection \<open>Own properties\<close>

lemma set_insert_prop: "set (insert_prop k v ps) = insert (k, v) (set ps)"
  by (induction ps) auto

lemma keys_insert_prop: "set (map fst (insert_prop k v ps)) = insert k (set (map fst ps))"
  by (simp add: set_insert_prop)

lemma insert_prop_nonempty: "insert_prop k v ps \<noteq> []"
  by (cases ps) auto

lemma distinct_insert_prop:
  "distinct (map fst ps) \<Longrightarrow> k \<notin> set (map fst ps) \<Longrightarrow> distinct (map fst (insert_prop k v ps))"
proof (induction ps)
  case Nil
  then show ?case by simp
next
  case (Cons p ps)
  then have "fst p \<notin> set (map fst (insert_prop k v ps))"
    unfolding keys_insert_prop by auto
  with Cons show ?case by auto
qed

lemma map_of_insert_prop:
  "k \<notin> set (map fst ps) \<Longrightarrow> map_of (insert_prop k v ps) = (map_of ps)(k \<mapsto> v)"
  by (induction ps) (auto simp: fun_eq_iff)

lemma orderedKeys_insert_prop:
  "orderedKeys (map fst ps) \<Longrightarrow> orderedKeys (map fst (insert_prop k v ps))"
proof (induction ps)
  case Nil
  then show ?case by (simp add: orderedKeys_def)
next
  case (Cons p ps)
  show ?case
  proof (cases "precedes k (fst p)")
    case True
    have "\<not> precedes (fst q) k" if "q \<in> set (p # ps)" for q
    proof -
      from that Cons.prems have "q = p \<or> \<not> precedes (fst q) (fst p)"
        by (auto simp: orderedKeys_def)
      with True show ?thesis
        by (auto simp: precedes_def split: option.splits)
    qed
    with True Cons.prems show ?thesis
      by (auto simp: orderedKeys_def)
  next
    case False
    from Cons have "orderedKeys (map fst (insert_prop k v ps))"
      by (simp add: orderedKeys_def)
    moreover have "\<forall>q \<in> set (map fst (insert_prop k v ps)). \<not> precedes q (fst p)"
      unfolding keys_insert_prop using False Cons.prems by (auto simp: orderedKeys_def)
    ultimately show ?thesis
      using False by (simp add: orderedKeys_def)
  qed
qed

lemma insert_prop_last:
  "orderedKeys (map fst ps @ [k]) \<Longrightarrow> insert_prop k v ps = ps @ [(k, v)]"
  by (induction ps) (auto simp: orderedKeys_def sorted_wrt_append)

lemma orderedKeys_delete:
  "orderedKeys (map fst ps) \<Longrightarrow> orderedKeys (map fst (AList.delete k ps))"
  by (simp add: orderedKeys_def AList.delete_keys removeAll_filter_not_eq sorted_wrt_filter)

lemma update_fresh: "k \<notin> fst ` set al \<Longrightarrow> AList.update k v al = al @ [(k, v)]"
  by (induction al) auto


lemma set_update_subset: "set (AList.update k v ps) \<subseteq> insert (k, v) (set ps)"
  by (induction ps) auto

subsection \<open>Assignments\<close>

lemma set_assign: "set (ownProps (assign obj k v)) \<subseteq> insert (k, v) (set (ownProps obj))"
  using set_update_subset [of k v "ownProps obj"]
  by (cases v) (auto simp: assign_def set_insert_prop)


lemma keys_assign_kept:
  "set (map fst (ownProps obj)) \<subseteq> set (map fst (ownProps (assign obj k v)))"
  by (cases v) (auto simp: assign_def keys_insert_prop AList.update_keys simp del: set_map)

lemma map_of_assign_other:
  "k' \<noteq> k \<Longrightarrow> map_of (ownProps (assign obj k v)) k' = map_of (ownProps obj) k'"
  by (cases v) (auto simp: assign_def AList.update_conv' map_of_insert_prop)

lemma map_of_assign_same:
  "k \<noteq> ''__proto__'' \<Longrightarrow> map_of (ownProps (assign obj k v)) k = Some v"
  by (auto simp: assign_def AList.update_conv' map_of_insert_prop)

lemma assign_plain_nonempty: "k \<noteq> ''__proto__'' \<Longrightarrow> ownProps (assign obj k v) \<noteq> []"
  using map_of_assign_same [of k obj v] by auto


lemma distinct_assign:
  "distinct (map fst (ownProps obj)) \<Longrightarrow> distinct (map fst (ownProps (assign obj k v)))"
  by (cases v) (auto simp: assign_def AList.distinct_update distinct_insert_prop simp del: set_map)

lemma orderedKeys_assign:
  "orderedKeys (map fst (ownProps obj)) \<Longrightarrow> orderedKeys (map fst (ownProps (assign obj k v)))"
  by (cases v) (auto simp: assign_def AList.update_keys orderedKeys_insert_prop simp del: set_map)

lemma assign_proto_setter:
  "''__proto__'' \<notin> set (map fst (ownProps obj)) \<Longrightarrow> inheritsProtoAccessor (prototypeOf obj) \<Longrightarrow>
     assign obj ''__proto__'' v = setPrototype obj v"
  by (simp add: assign_def)

lemma ownProps_setPrototype: "ownProps (setPrototype obj v) = ownProps obj"
  by (cases v) auto

lemma assign_last:
  assumes "k \<noteq> ''__proto__''" and "k \<notin> set (map fst (ownProps obj))"
      and "orderedKeys (map fst (ownProps obj) @ [k])"
  shows "assign obj k v = obj\<lparr>ownProps := ownProps obj @ [(k, v)]\<rparr>"
  using assms by (simp add: assign_def insert_prop_last)

subsection \<open>The decoding loop\<close>

lemma fixSession_no_string: "fixSession val \<noteq> JString s"
  by (cases val) (auto simp: fixSession_def)

lemma fixSession_id: "\<forall>s. v \<noteq> JString s \<Longrightarrow> fixSession v = v"
  by (cases v) (auto simp: fixSession_def)

lemma fixSession_string: "fixSession (JString s) = JObject [(''session'', JString s)]"
  by (simp add: fixSession_def)

lemma fixLoop_append: "fixLoop (xs @ ys) obj = fixLoop ys (fixLoop xs obj)"
  by (induction xs obj rule: fixLoop.induct) auto

lemma fixLoop_set:
  "set (ownProps (fixLoop m obj))
     \<subseteq> set (ownProps obj) \<union> (\<lambda>kv. (fst kv, fixSession (snd kv))) ` set m"
proof (induction m obj rule: fixLoop.induct)
  case (1 obj)
  then show ?case by simp
next
  case (2 sid val rest obj)
  with set_assign [of obj sid "fixSession val"] show ?case by auto
qed

lemma fixLoop_keys_kept:
  "set (map fst (ownProps obj)) \<subseteq> set (map fst (ownProps (fixLoop m obj)))"
proof (induction m obj rule: fixLoop.induct)
  case (1 obj)
  then show ?case by simp
next
  case (2 sid val rest obj)
  with keys_assign_kept [of obj sid "fixSession val"] show ?case by auto
qed

lemma fixLoop_empty_iff_plain:
  "\<forall>kv \<in> set m. fst kv \<noteq> ''__proto__'' \<Longrightarrow>
     ownProps (fixLoop m obj) = [] \<longleftrightarrow> m = [] \<and> ownProps obj = []"
proof (induction m obj rule: fixLoop.induct)
  case (1 obj)
  then show ?case by simp
next
  case (2 sid val rest obj)
  then show ?case by (auto simp: assign_plain_nonempty)
qed

lemma fixLoop_distinct: "distinct (map fst (ownProps obj)) \<Longrightarrow>
    distinct (map fst (ownProps (fixLoop m obj)))"
  by (induction m obj rule: fixLoop.induct) (auto simp: distinct_assign simp del: set_map)

lemma fixLoop_ordered: "orderedKeys (map fst (ownProps obj)) \<Longrightarrow>
    orderedKeys (map fst (ownProps (fixLoop m obj)))"
  by (induction m obj rule: fixLoop.induct) (auto simp: orderedKeys_assign)

lemma fixLoop_no_string:
  assumes "\<forall>v \<in> snd ` set (ownProps obj). \<forall>s. v \<noteq> JString s"
  shows "\<forall>v \<in> snd ` set (ownProps (fixLoop m obj)). \<forall>s. v \<noteq> JString s"
proof (intro ballI allI)
  fix v s
  assume "v \<in> snd ` set (ownProps (fixLoop m obj))"
  with fixLoop_set [of m obj]
  have "v \<in> snd ` set (ownProps obj) \<or> v \<in> fixSession ` snd ` set m" by force
  then show "v \<noteq> JString s"
  proof
    assume "v \<in> snd ` set (ownProps obj)"
    with assms have "\<forall>s. v \<noteq> JString s" by (rule bspec)
    then show ?thesis by simp
  next
    assume "v \<in> fixSession ` snd ` set m"
    then obtain w where "v = fixSession w" by blast
    then show ?thesis by (simp add: fixSession_no_string)
  qed
qed

lemma fixLoop_lookup:
  "distinct (map fst m) \<Longrightarrow> k \<noteq> ''__proto__'' \<Longrightarrow>
     map_of (ownProps (fixLoop m obj)) k
       = (case map_of m k of Some v \<Rightarrow> Some (fixSession v) | None \<Rightarrow> map_of (ownProps obj) k)"
proof (induction m obj rule: fixLoop.induct)
  case (1 obj)
  then show ?case by simp
next
  case (2 sid val rest obj)
  then have IH: "map_of (ownProps (fixLoop rest (assign obj sid (fixSession val)))) k
      = (case map_of rest k of Some v \<Rightarrow> Some (fixSession v)
         | None \<Rightarrow> map_of (ownProps (assign obj sid (fixSession val))) k)"
    by simp
  show ?case
  proof (cases "k = sid")
    case True
    with 2(2) have "map_of rest k = None"
      by (auto simp: map_of_eq_None_iff)
    with True 2(3) IH show ?thesis by (simp add: map_of_assign_same)
  next
    case False
    then have "map_of (ownProps (assign obj sid (fixSession val))) k = map_of (ownProps obj) k"
      by (simp add: map_of_assign_other)
    with False IH show ?thesis by (simp split: option.splits)
  qed
qed


lemma fixLoop_rebuild:
  assumes "\<forall>kv \<in> set m. fst kv \<noteq> ''__proto__''"
      and "distinct (map fst (ownProps obj) @ map fst m)"
      and "orderedKeys (map fst (ownProps obj) @ map fst m)"
  shows "fixLoop m obj
           = obj\<lparr>ownProps := ownProps obj @ map (\<lambda>kv. (fst kv, fixSession (snd kv))) m\<rparr>"
  using assms
proof (induction m obj rule: fixLoop.induct)
  case (1 obj)
  then show ?case by simp
next
  case (2 sid val rest obj)
  from 2(2) have sid: "sid \<noteq> ''__proto__''" by simp
  from 2(3) have fresh: "sid \<notin> set (map fst (ownProps obj))" by auto
  from 2(4) have "orderedKeys (map fst (ownProps obj) @ [sid])"
    by (auto simp: orderedKeys_def sorted_wrt_append)
  from assign_last [OF sid fresh this]
  have a: "assign obj sid (fixSession val) = obj\<lparr>ownProps := ownProps obj @ [(sid, fixSession val)]\<rparr>" .
  from 2(1) [unfolded a] 2(2,3,4) show ?case
    by (simp add: a)
qed

lemma no_key_iff: "(\<forall>kv \<in> set m. fst kv \<noteq> k) \<longleftrightarrow> k \<notin> set (map fst m)"
  by (induction m) auto

lemma fixLoop_parsed:
  assumes "distinct (map fst m)" and "orderedKeys (map fst m)"
  shows "ownProps (fixLoop m emptyObject)
           = map (\<lambda>kv. (fst kv, fixSession (snd kv))) (filter (\<lambda>kv. fst kv \<noteq> ''__proto__'') m)"
proof (cases "''__proto__'' \<in> set (map fst m)")
  case False
  then have plain: "\<forall>kv \<in> set m. fst kv \<noteq> ''__proto__''" by (simp add: no_key_iff)
  then have "filter (\<lambda>kv. fst kv \<noteq> ''__proto__'') m = m" by simp
  with fixLoop_rebuild [OF plain, of emptyObject] assms show ?thesis
    by (simp add: emptyObject_def)
next
  case True
  then obtain v where "(''__proto__'', v) \<in> set m" by force
  then obtain m1 m2 where m: "m = m1 @ (''__proto__'', v) # m2"
    by (auto dest: split_list)
  from assms(1) m have p1: "\<forall>kv \<in> set m1. fst kv \<noteq> ''__proto__''"
    and p2: "\<forall>kv \<in> set m2. fst kv \<noteq> ''__proto__''"
    by (simp_all add: no_key_iff)
  let ?f = "\<lambda>kv. (fst kv, fixSession (snd kv))"
  let ?o1 = "fixLoop m1 emptyObject"
  from assms m have d1: "distinct (map fst m1)" and o1: "orderedKeys (map fst m1)"
    by (auto simp: orderedKeys_def sorted_wrt_append)
  from fixLoop_rebuild [OF p1, of emptyObject] d1 o1
  have e1: "?o1 = emptyObject\<lparr>ownProps := map ?f m1\<rparr>"
    by (simp add: emptyObject_def)
  let ?o2 = "assign ?o1 ''__proto__'' (fixSession v)"
  from p1 have "''__proto__'' \<notin> set (map fst (ownProps ?o1))"
    unfolding e1 by auto
  moreover have "inheritsProtoAccessor (prototypeOf ?o1)"
    unfolding e1 by (simp add: emptyObject_def)
  ultimately have "?o2 = setPrototype ?o1 (fixSession v)"
    by (rule assign_proto_setter)
  then have own2: "ownProps ?o2 = map ?f m1"
    by (simp add: ownProps_setPrototype e1)
  from assms m have "distinct (map fst (map ?f m1) @ map fst m2)"
    and "orderedKeys (map fst (map ?f m1) @ map fst m2)"
    by (auto simp: orderedKeys_def sorted_wrt_append comp_def)
  with fixLoop_rebuild [OF p2, of ?o2] own2
  have "ownProps (fixLoop m2 ?o2) = map ?f m1 @ map ?f m2" by simp
  moreover from p1 p2 have "filter (\<lambda>kv. fst kv \<noteq> ''__proto__'') m = m1 @ m2"
    unfolding m by simp
  ultimately show ?thesis
    unfolding m by (simp add: fixLoop_append)
qed

subsection \<open>The sessions of a device\<close>

lemma priv_getEndToEndSessions_distinct:
  "distinct (map fst (ownProps (priv_getEndToEndSessions store D)))"
  by (simp add: priv_getEndToEndSessions_def fixLoop_distinct emptyObject_def)

lemma priv_getEndToEndSessions_ordered:
  "orderedKeys (map fst (ownProps (priv_getEndToEndSessions store D)))"
  unfolding priv_getEndToEndSessions_def Let_def
  by (rule fixLoop_ordered) (simp add: emptyObject_def orderedKeys_def)

lemma priv_getEndToEndSessions_no_string:
  "(k, v) \<in> set (ownProps (priv_getEndToEndSessions store D)) \<Longrightarrow> v \<noteq> JString s"
proof -
  have "\<forall>v \<in> snd ` set (ownProps (priv_getEndToEndSessions store D)). \<forall>s. v \<noteq> JString s"
    unfolding priv_getEndToEndSessions_def Let_def
    by (rule fixLoop_no_string) (simp add: emptyObject_def)
  then show "(k, v) \<in> set (ownProps (priv_getEndToEndSessions store D)) \<Longrightarrow> v \<noteq> JString s"
    by force
qed

lemma priv_getEndToEndSessions_object:
  "getItem store (keyEndToEndSessions D) = Some (Valid (JObject m)) \<Longrightarrow>
     priv_getEndToEndSessions store D = fixLoop m emptyObject"
  by (simp add: priv_getEndToEndSessions_def getJsonItem_def or_else_def)

lemma priv_getEndToEndSessions_null:
  "getJsonItem store (keyEndToEndSessions D) = JNull \<Longrightarrow>
     priv_getEndToEndSessions store D = emptyObject"
  by (simp add: priv_getEndToEndSessions_def or_else_def)

lemma priv_getEndToEndSessions_cong:
  "getJsonItem store' (keyEndToEndSessions D) = getJsonItem store (keyEndToEndSessions D) \<Longrightarrow>
     priv_getEndToEndSessions store' D = priv_getEndToEndSessions store D"
  by (simp add: priv_getEndToEndSessions_def)

lemma fixLoop_decoded:
  assumes "distinct (map fst ps)" and "orderedKeys (map fst ps)"
      and "\<forall>kv \<in> set ps. \<forall>s. snd kv \<noteq> JString s"
  shows "ownProps (fixLoop ps emptyObject) = filter (\<lambda>kv. fst kv \<noteq> ''__proto__'') ps"
proof -
  have "map (\<lambda>kv. (fst kv, fixSession (snd kv))) (filter (\<lambda>kv. fst kv \<noteq> ''__proto__'') ps)
          = filter (\<lambda>kv. fst kv \<noteq> ''__proto__'') ps"
    using assms(3) by (intro map_idI) (simp add: fixSession_id)
  with fixLoop_parsed [OF assms(1,2)] show ?thesis by simp
qed

lemma priv_getEndToEndSessions_rewritten:
  assumes "ps = AList.delete S (ownProps (priv_getEndToEndSessions store D))"
      and "getItem store' (keyEndToEndSessions D) = Some (Valid (JObject ps))"
  shows "ownProps (priv_getEndToEndSessions store' D) = filter (\<lambda>kv. fst kv \<noteq> ''__proto__'') ps"
proof -
  let ?ds = "ownProps (priv_getEndToEndSessions store D)"
  have "distinct (map fst ps)"
    unfolding assms(1) by (simp add: AList.distinct_delete priv_getEndToEndSessions_distinct)
  moreover have "orderedKeys (map fst ps)"
    unfolding assms(1) by (simp add: orderedKeys_delete priv_getEndToEndSessions_ordered)
  moreover have "\<forall>kv \<in> set ps. \<forall>s. snd kv \<noteq> JString s"
  proof (intro ballI allI)
    fix kv s
    assume "kv \<in> set ps"
    then have "(fst kv, snd kv) \<in> set ?ds"
      unfolding assms(1) by (auto simp: AList.delete_eq)
    then show "snd kv \<noteq> JString s" by (rule priv_getEndToEndSessions_no_string)
  qed
  ultimately show ?thesis
    by (simp add: priv_getEndToEndSessions_object [OF assms(2)] fixLoop_decoded)
qed

lemma countLoop_sum:
  "countLoop store ks c =
     c + sum_list (map (storedCount store) (filter (\<lambda>key. startsWith key (keyEndToEndSessions [])) ks))"
  by (induction store ks c rule: countLoop.induct) (simp_all add: Let_def storedCount_def)

lemma storedCount_removeItem:
  "k \<noteq> key \<Longrightarrow> storedCount (removeItem store key) k = storedCount store k"
  by (simp add: storedCount_def getJsonItem_removeItem)

lemma sum_list_removeAll:
  "sum_list (map f (filter P xs))
     = sum_list (map f (filter P (removeAll k xs))) + (if P k then f k * count_list xs k else (0::nat))"
  by (induction xs) auto

lemma countEndToEndSessions_removeItem:
  "fst (countEndToEndSessions store)
     = fst (countEndToEndSessions (removeItem store key))
       + (if startsWith key (keyEndToEndSessions [])
          then storedCount store key * count_list (keys store) key else 0)"
proof -
  let ?P = "\<lambda>key. startsWith key (keyEndToEndSessions [])"
  have "map (storedCount (removeItem store key)) (filter ?P (removeAll key (keys store)))
          = map (storedCount store) (filter ?P (removeAll key (keys store)))"
    by (intro map_cong refl) (auto simp: storedCount_removeItem)
  moreover have "fst (countEndToEndSessions (removeItem store key))
      = sum_list (map (storedCount (removeItem store key)) (filter ?P (removeAll key (keys store))))"
    by (simp add: countEndToEndSessions_def countLoop_sum keys_removeItem)
  moreover have "fst (countEndToEndSessions store)
      = sum_list (map (storedCount store) (filter ?P (keys store)))"
    by (simp add: countEndToEndSessions_def countLoop_sum)
  ultimately show ?thesis
    by (simp only: sum_list_removeAll [of "storedCount store" ?P "keys store" key])
qed

lemma count_list_distinct: "distinct xs \<Longrightarrow> x \<in> set xs \<Longrightarrow> count_list xs x = 1"
  by (induction xs) auto

lemma concat_removeAll_nil:
  "(P k \<longrightarrow> f k = []) \<Longrightarrow>
     concat (map f (filter P (removeAll k xs))) = concat (map f (filter P xs))"
  by (induction xs) auto

subsection \<open>Deleting one session\<close>

lemma getItem_deleteEndToEndSession:
  "getItem (deleteEndToEndSession store (D, S)) (keyEndToEndSessions D)
     = (if AList.delete S (ownProps (priv_getEndToEndSessions store D)) = [] then None
        else Some (Valid (JObject (AList.delete S (ownProps (priv_getEndToEndSessions store D))))))"
  by (simp add: deleteEndToEndSession_def Let_def delete_prop_def stringify_def
        getItem_removeItem getItem_setJsonItem)

lemma getItem_deleteEndToEndSession_other:
  "k \<noteq> keyEndToEndSessions D \<Longrightarrow> getItem (deleteEndToEndSession store (D, S)) k = getItem store k"
  by (simp add: deleteEndToEndSession_def Let_def getItem_removeItem getItem_setJsonItem)

lemma getJsonItem_deleteEndToEndSession_other:
  "k \<noteq> keyEndToEndSessions D \<Longrightarrow>
     getJsonItem (deleteEndToEndSession store (D, S)) k = getJsonItem store k"
  by (simp add: getJsonItem_def getItem_deleteEndToEndSession_other)

lemma priv_getEndToEndSessions_deleteEndToEndSession_other:
  "D' \<noteq> D \<Longrightarrow>
     priv_getEndToEndSessions (deleteEndToEndSession store (D, S)) D'
       = priv_getEndToEndSessions store D'"
  by (intro priv_getEndToEndSessions_cong getJsonItem_deleteEndToEndSession_other)
     (simp add: keyEndToEndSessions_inj)

lemma sessions_after_deleteEndToEndSession:
  "ownProps (priv_getEndToEndSessions (deleteEndToEndSession store (D, S)) D)
     = filter (\<lambda>kv. fst kv \<noteq> ''__proto__'')
         (AList.delete S (ownProps (priv_getEndToEndSessions store D)))"
proof (cases "AList.delete S (ownProps (priv_getEndToEndSessions store D)) = []")
  case True
  then have "getJsonItem (deleteEndToEndSession store (D, S)) (keyEndToEndSessions D) = JNull"
    by (simp add: getJsonItem_def getItem_deleteEndToEndSession)
  with True show ?thesis
    by (simp add: priv_getEndToEndSessions_null emptyObject_def)
next
  case False
  then have "getItem (deleteEndToEndSession store (D, S)) (keyEndToEndSessions D)
      = Some (Valid (JObject (AList.delete S (ownProps (priv_getEndToEndSessions store D)))))"
    by (simp add: getItem_deleteEndToEndSession)
  from priv_getEndToEndSessions_rewritten [OF refl this] show ?thesis .
qed

lemma names_delete_filter: "set (map fst (filter P (AList.delete S ps))) \<subseteq> set (map fst ps) - {S}"
  by (induction ps) auto

lemma delete_only: "set (map fst ps) \<subseteq> {S} \<Longrightarrow> AList.delete S ps = []"
  by (induction ps) auto

lemma names_after_deleteEndToEndSession:
  "set (map fst (ownProps (priv_getEndToEndSessions (deleteEndToEndSession store (D, S)) D)))
     \<subseteq> set (map fst (ownProps (priv_getEndToEndSessions store D))) - {S}"
  unfolding sessions_after_deleteEndToEndSession by (rule names_delete_filter)

lemma deleteEndToEndSession_last:
  "set (map fst (ownProps (priv_getEndToEndSessions store D))) \<subseteq> {S} \<Longrightarrow>
     getItem (deleteEndToEndSession store (D, S)) (keyEndToEndSessions D) = None"
proof -
  assume "set (map fst (ownProps (priv_getEndToEndSessions store D))) \<subseteq> {S}"
  then have "AList.delete S (ownProps (priv_getEndToEndSessions store D)) = []"
    by (rule delete_only)
  then show ?thesis by (simp add: getItem_deleteEndToEndSession)
qed

lemma deleteEndToEndSession_absent:
  "getItem store (keyEndToEndSessions D) = None \<Longrightarrow>
     getItem (deleteEndToEndSession store (D', S)) (keyEndToEndSessions D) = None"
proof (cases "D' = D")
  case True
  assume "getItem store (keyEndToEndSessions D) = None"
  then have "priv_getEndToEndSessions store D = emptyObject"
    by (simp add: priv_getEndToEndSessions_null getJsonItem_def)
  with True show ?thesis
    by (simp add: getItem_deleteEndToEndSession emptyObject_def)
next
  case False
  assume "getItem store (keyEndToEndSessions D) = None"
  with False show ?thesis
    by (simp add: getItem_deleteEndToEndSession_other keyEndToEndSessions_inj)
qed

lemma deleteEndToEndSessionsBatch_removes:
  assumes "set (map fst (ownProps (priv_getEndToEndSessions store D))) \<subseteq> {S. (D, S) \<in> set ps}"
      and "D \<in> fst ` set ps \<or> getItem store (keyEndToEndSessions D) = None"
  shows "getItem (deleteEndToEndSessionsBatch ps store) (keyEndToEndSessions D) = None"
  using assms
proof (induction ps arbitrary: store)
  case Nil
  then show ?case by (simp add: deleteEndToEndSessionsBatch_def)
next
  case (Cons p ps)
  obtain D' S' where p: "p = (D', S')" by (cases p)
  let ?store = "deleteEndToEndSession store (D', S')"
  have step: "deleteEndToEndSessionsBatch (p # ps) store = deleteEndToEndSessionsBatch ps ?store"
    by (simp add: deleteEndToEndSessionsBatch_def p)
  show ?case
  proof (cases "D' = D")
    case False
    then have same: "priv_getEndToEndSessions ?store D = priv_getEndToEndSessions store D"
      by (simp add: priv_getEndToEndSessions_deleteEndToEndSession_other)
    from False have item: "getItem ?store (keyEndToEndSessions D) = getItem store (keyEndToEndSessions D)"
      by (simp add: getItem_deleteEndToEndSession_other keyEndToEndSessions_inj)
    from Cons.prems(1) False p
    have "set (map fst (ownProps (priv_getEndToEndSessions ?store D))) \<subseteq> {S. (D, S) \<in> set ps}"
      unfolding same by auto
    moreover from Cons.prems(2) False p
    have "D \<in> fst ` set ps \<or> getItem ?store (keyEndToEndSessions D) = None"
      unfolding item by auto
    ultimately show ?thesis
      unfolding step by (rule Cons.IH)
  next
    case True
    from names_after_deleteEndToEndSession [of store D S'] Cons.prems(1) True p
    have names: "set (map fst (ownProps (priv_getEndToEndSessions ?store D))) \<subseteq> {S. (D, S) \<in> set ps}"
      by auto
    have "D \<in> fst ` set ps \<or> getItem ?store (keyEndToEndSessions D) = None"
    proof (cases "D \<in> fst ` set ps")
      case True
      then show ?thesis ..
    next
      case False
      have "set (map fst (ownProps (priv_getEndToEndSessions store D))) \<subseteq> {S'}"
      proof
        fix x
        assume "x \<in> set (map fst (ownProps (priv_getEndToEndSessions store D)))"
        with Cons.prems(1) have "(D, x) \<in> set (p # ps)" by blast
        moreover from False have "(D, x) \<notin> set ps" by (metis fst_conv image_eqI)
        ultimately show "x \<in> {S'}" using p by simp
      qed
      from deleteEndToEndSession_last [OF this] \<open>D' = D\<close> show ?thesis by simp
    qed
    with names show ?thesis
      unfolding step by (rule Cons.IH)
  qed
qed

lemma deleteEndToEndSessionsBatch_other_key:
  "k \<notin> keyEndToEndSessions ` fst ` set ps \<Longrightarrow>
     getItem (deleteEndToEndSessionsBatch ps store) k = getItem store k"
proof (induction ps arbitrary: store)
  case Nil
  then show ?case by (simp add: deleteEndToEndSessionsBatch_def)
next
  case (Cons p ps)
  obtain D' S' where p: "p = (D', S')" by (cases p)
  from Cons.prems p have "k \<noteq> keyEndToEndSessions D'" by auto
  then have "getItem (deleteEndToEndSession store (D', S')) k = getItem store k"
    by (rule getItem_deleteEndToEndSession_other)
  moreover from Cons.prems have "k \<notin> keyEndToEndSessions ` fst ` set ps" by auto
  ultimately show ?case
    using Cons.IH [of "deleteEndToEndSession store (D', S')"]
    by (simp add: deleteEndToEndSessionsBatch_def p)
qed

subsection \<open>The batch of Olm sessions\<close>

lemma pushSessions_append:
  "pushSessions n (xs @ ys) acc =
     (case pushSessions n xs acc of Returned r \<Rightarrow> Returned r | Running r \<Rightarrow> pushSessions n ys r)"
  by (induction n xs acc rule: pushSessions.induct) (auto simp: Let_def)

lemma pushSessions_running:
  "pushSessions n xs acc = Running r \<longleftrightarrow> r = acc @ xs \<and> (xs = [] \<or> length (acc @ xs) < n)"
  by (induction n xs acc rule: pushSessions.induct) (auto simp: Let_def)

lemma pushSessions_returned:
  "pushSessions n xs acc = Returned r \<Longrightarrow> length acc < n \<or> acc = [] \<Longrightarrow>
     r = acc @ take (max 1 n - length acc) xs \<and> xs \<noteq> [] \<and> length (acc @ xs) \<ge> n"
proof (induction n xs acc rule: pushSessions.induct)
  case (1 n acc)
  then show ?case by simp
next
  case (2 n x xs acc)
  show ?case
  proof (cases "length (acc @ [x]) \<ge> n")
    case True
    with 2(2,3) show ?thesis by (auto simp: Let_def max_def take_Cons')
  next
    case False
    with 2(2) have r: "pushSessions n xs (acc @ [x]) = Returned r" by (simp add: Let_def)
    from False have "length (acc @ [x]) < n \<or> acc @ [x] = []" by simp
    from 2(1) [OF refl False r this] False show ?thesis
      by (auto simp: max_def Suc_diff_le take_Cons')
  qed
qed

lemma sessionsBatchLoop_flat:
  "sessionsBatchLoop n store ks acc =
     pushSessions n
       (concat (map (\<lambda>key. map snd (ownProps (priv_getEndToEndSessions store (second (split CHR ''/'' key)))))
                    (filter (\<lambda>key. startsWith key (keyEndToEndSessions [])) ks)))
       acc"
proof (induction ks arbitrary: acc)
  case Nil
  then show ?case by simp
next
  case (Cons k ks)
  show ?case
    by (cases "pushSessions n (map snd (ownProps (priv_getEndToEndSessions store (second (split CHR ''/'' k))))) acc")
       (simp_all add: Cons.IH pushSessions_append Object_values_def)
qed

lemma pushSessions_flat:
  "(case pushSessions n xs [] of
      Returned r \<Rightarrow> Some r
    | Running r \<Rightarrow> if length r = 0 then None else Some r)
     = (if xs = [] then None else Some (take (max 1 n) xs))"
proof (cases "pushSessions n xs []")
  case (Returned r)
  from pushSessions_returned [OF this] have "r = take (max 1 n) xs" and "xs \<noteq> []"
    by simp_all
  with Returned show ?thesis by simp
next
  case (Running r)
  then have r: "r = xs" and short: "xs = [] \<or> length xs < n"
    by (simp_all add: pushSessions_running)
  from short have "xs \<noteq> [] \<Longrightarrow> take (max 1 n) xs = xs"
    by auto
  with Running r show ?thesis by simp
qed

lemma getEndToEndSessionsBatch_flat:
  "getEndToEndSessionsBatch n store =
     (if scannedSessions store = [] then None else Some (take (max 1 n) (scannedSessions store)),
      store)"
  using pushSessions_flat [of n "scannedSessions store"]
  by (simp add: getEndToEndSessionsBatch_def sessionsBatchLoop_flat scannedSessions_def)



subsection \<open>The scans of inbound group sessions and of rooms\<close>

lemma inboundBatchLoop_flat:
  "inboundBatchLoop h n store snb ks acc = Inr fl \<Longrightarrow>
     fl = pushSessions n
            (map (\<lambda>key. \<lparr>senderKey = take 43 (drop (length KEY_INBOUND_SESSION_PREFIX) key),
                         sessionId = drop 44 (drop (length KEY_INBOUND_SESSION_PREFIX) key),
                         sessionData = getJsonItem store key,
                         needsBackup =
                           (has_prop h (drop (length KEY_INBOUND_SESSION_PREFIX) key) snb = Inr True)\<rparr>)
                 (filter (\<lambda>key. startsWith key KEY_INBOUND_SESSION_PREFIX) ks))
            acc"
proof (induction h n store snb ks acc rule: inboundBatchLoop.induct)
  case (1 h n store snb acc)
  then show ?case by simp
next
  case (2 h n store snb key rest acc)
  show ?case
  proof (cases "startsWith key KEY_INBOUND_SESSION_PREFIX")
    case False
    with 2 show ?thesis by simp
  next
    case True
    let ?key2 = "drop (length KEY_INBOUND_SESSION_PREFIX) key"
    from True 2(3) obtain nb where nb: "has_prop h ?key2 snb = Inr nb"
      by (cases "has_prop h ?key2 snb") (auto simp: Let_def)
    let ?acc = "acc @ [\<lparr>senderKey = take 43 ?key2, sessionId = drop 44 ?key2,
                        sessionData = getJsonItem store key, needsBackup = nb\<rparr>]"
    show ?thesis
    proof (cases "n \<le> length ?acc")
      case full: True
      with True nb 2(3) show ?thesis by (auto simp: Let_def)
    next
      case below: False
      with True nb 2(3) have run: "inboundBatchLoop h n store snb rest ?acc = Inr fl"
        by (simp add: Let_def)
      from 2(1) [OF True refl nb refl below run] True nb below show ?thesis
        by (simp add: Let_def)
    qed
  qed
qed

lemma inboundBatchLoop_total:
  "\<forall>key \<in> set ks. has_prop h (drop (length KEY_INBOUND_SESSION_PREFIX) key) snb \<noteq> Inl TypeError \<Longrightarrow>
     \<exists>fl. inboundBatchLoop h n store snb ks acc = Inr fl"
proof (induction h n store snb ks acc rule: inboundBatchLoop.induct)
  case (1 h n store snb acc)
  then show ?case by simp
next
  case (2 h n store snb key rest acc)
  then obtain nb where nb: "has_prop h (drop (length KEY_INBOUND_SESSION_PREFIX) key) snb = Inr nb"
    by (cases "has_prop h (drop (length KEY_INBOUND_SESSION_PREFIX) key) snb") (auto, metis error.exhaust)
  with 2 show ?case by (auto simp: Let_def)
qed

lemma inboundBatchLoop_none:
  "filter (\<lambda>key. startsWith key KEY_INBOUND_SESSION_PREFIX) ks = [] \<Longrightarrow>
     inboundBatchLoop h n store snb ks acc = Inr (Running acc)"
  by (induction h n store snb ks acc rule: inboundBatchLoop.induct)
     (auto simp: Let_def split: if_splits)

lemma has_prop_object: "has_prop h k (JObject m) \<noteq> Inl e"
  by simp

lemma has_prop_array: "has_prop h k (JArray xs) \<noteq> Inl e"
  by simp

lemma inboundBatchLoop_removed:
  assumes "\<not> startsWith key KEY_INBOUND_SESSION_PREFIX"
      and "\<And>k. getJsonItem store' k = getJsonItem store k"
  shows "inboundBatchLoop h n store' snb (removeAll key ks) acc = inboundBatchLoop h n store snb ks acc"
  using assms
  by (induction h n store snb ks acc rule: inboundBatchLoop.induct)
     (auto simp: Let_def split: sum.splits)

lemma roomsLoop_removed:
  assumes "\<not> startsWith key (keyEndToEndRoomsPrefix [])"
      and "\<And>k. getJsonItem store' k = getJsonItem store k"
  shows "roomsLoop store' (removeAll key ks) acc = roomsLoop store ks acc"
  using assms by (induction ks arbitrary: acc) (auto simp: Let_def)

subsection \<open>Stores without an empty container\<close>

lemma noEmptyContainer_iff:
  "noEmptyContainer store \<longleftrightarrow>
     (\<forall>key \<in> set (keys store). startsWith key (keyEndToEndSessions []) \<longrightarrow>
        storedCount store key \<noteq> 0)"
  by (simp add: noEmptyContainer_def list_all_iff)

lemma storedCount_setJsonItem:
  "storedCount (setJsonItem store key v) k
     = (if k = key then length (Object_keys (nullish_or v (JObject []))) else storedCount store k)"
  by (simp add: storedCount_def getJsonItem_setJsonItem getJsonItem_setJsonItem_other)

lemma noEmptyContainer_setJsonItem:
  "noEmptyContainer store \<Longrightarrow>
     \<not> startsWith key (keyEndToEndSessions []) \<or> Object_keys (nullish_or v (JObject [])) \<noteq> [] \<Longrightarrow>
     noEmptyContainer (setJsonItem store key v)"
  by (auto simp: noEmptyContainer_iff keys_setJsonItem storedCount_setJsonItem)

lemma noEmptyContainer_removeItem:
  "noEmptyContainer store \<Longrightarrow> noEmptyContainer (removeItem store key)"
  by (auto simp: noEmptyContainer_iff keys_removeItem storedCount_removeItem)

lemma noEmptyContainer_deleteEndToEndSession:
  "noEmptyContainer store \<Longrightarrow> noEmptyContainer (deleteEndToEndSession store p)"
  by (cases p)
     (auto simp: deleteEndToEndSession_def Let_def Object_keys_def nullish_or_def stringify_def
           intro!: noEmptyContainer_setJsonItem noEmptyContainer_removeItem)

lemma noEmptyContainer_deleteEndToEndSessionsBatch:
  "noEmptyContainer store \<Longrightarrow> noEmptyContainer (deleteEndToEndSessionsBatch xs store)"
  unfolding deleteEndToEndSessionsBatch_def
  by (induction xs arbitrary: store) (simp_all add: noEmptyContainer_deleteEndToEndSession)

lemma noEmptyContainer_deleteEndToEndInboundGroupSessionsBatch:
  "noEmptyContainer store \<Longrightarrow> noEmptyContainer (deleteEndToEndInboundGroupSessionsBatch xs store)"
  unfolding deleteEndToEndInboundGroupSessionsBatch_def
  by (induction xs arbitrary: store) (simp_all add: noEmptyContainer_removeItem)

lemma noEmptyContainer_storeEndToEndSession:
  assumes "noEmptyContainer store" and "s \<noteq> ''__proto__''"
  shows "noEmptyContainer (storeEndToEndSession d s v store)"
proof -
  from assms(2) have "ownProps (assign (priv_getEndToEndSessions store d) s v) \<noteq> []"
    by (rule assign_plain_nonempty)
  then show ?thesis
    unfolding storeEndToEndSession_def Let_def
    by (intro noEmptyContainer_setJsonItem assms(1))
       (simp add: stringify_def nullish_or_def Object_keys_def)
qed

lemma noEmptyContainer_perform:
  assumes "noEmptyContainer store" and "perform op store = Inr store'" and "plainOperation op"
  shows "noEmptyContainer store'"
proof (cases op)
  case (SetMigrationState v)
  with assms show ?thesis
    by (auto simp: setMigrationState_def startsWith_def key_defs intro!: noEmptyContainer_setJsonItem)
next
  case (StoreEndToEndSession d s v)
  with assms show ?thesis
    by (auto simp: noEmptyContainer_storeEndToEndSession)
next
  case (DeleteEndToEndSessionsBatch xs)
  with assms show ?thesis
    by (auto simp: noEmptyContainer_deleteEndToEndSessionsBatch)
next
  case (StoreEndToEndInboundGroupSession k s v)
  with assms show ?thesis
    by (auto simp: storeEndToEndInboundGroupSession_def startsWith_def key_defs
             intro!: noEmptyContainer_setJsonItem)
next
  case (DeleteEndToEndInboundGroupSessionsBatch xs)
  with assms show ?thesis
    by (auto simp: noEmptyContainer_deleteEndToEndInboundGroupSessionsBatch)
next
  case (MarkSessionsNeedingBackup xs)
  with assms show ?thesis
    by (auto simp: markSessionsNeedingBackup_def Let_def startsWith_def key_defs
             split: sum.splits intro!: noEmptyContainer_setJsonItem)
next
  case DeleteAllData
  with assms show ?thesis
    by (auto simp: deleteAllData_def noEmptyContainer_removeItem)
next
  case (StoreAccount p)
  with assms show ?thesis
    by (auto simp: storeAccount_def startsWith_def key_defs intro!: noEmptyContainer_setJsonItem)
next
  case (StoreSecretStorePrivateKey t v)
  with assms show ?thesis
    by (auto simp: storeSecretStorePrivateKey_def startsWith_def key_defs
             intro!: noEmptyContainer_setJsonItem)
qed

subsection \<open>Backup flags\<close>

lemma filter_key_distinct:
  "distinct (map fst m) \<Longrightarrow> map_of m k = Some v \<Longrightarrow> filter (\<lambda>kv. fst kv = k) m = [(k, v)]"
proof (induction m)
  case Nil
  then show ?case by simp
next
  case (Cons p m)
  show ?case
  proof (cases "fst p = k")
    case True
    from Cons.prems(1) have "fst p \<notin> fst ` set m" by simp
    with True have "\<forall>kv \<in> set m. fst kv \<noteq> k" by (metis fst_conv image_eqI prod.collapse)
    then have "filter (\<lambda>kv. fst kv = k) m = []"
      by (simp add: filter_empty_conv)
    with True Cons.prems show ?thesis by (cases p) auto
  next
    case False
    with Cons show ?thesis by auto
  qed
qed

lemma markLoop_object:
  "markLoop (JObject m) ss
     = Inr (JObject (fold (\<lambda>x. AList.update (flagKey x) (JBool True)) ss m))"
  by (induction ss arbitrary: m) (simp_all add: flagKey_def)

lemma map_of_marked:
  "map_of (fold (\<lambda>x. AList.update (flagKey x) (JBool True)) ss m) k
     = (if k \<in> flagKey ` set ss then Some (JBool True) else map_of m k)"
  by (induction ss arbitrary: m) (auto simp: AList.update_conv')

lemma distinct_marked:
  "distinct (map fst m) \<Longrightarrow>
     distinct (map fst (fold (\<lambda>x. AList.update (flagKey x) (JBool True)) ss m))"
  by (induction ss arbitrary: m) (simp_all add: AList.distinct_update)

lemma keys_marked:
  "fst ` set (fold (\<lambda>x. AList.update (flagKey x) (JBool True)) ss m)
     = fst ` set m \<union> flagKey ` set ss"
  by (induction ss arbitrary: m) (auto simp: AList.dom_update)

lemma marked_again:
  "\<forall>x \<in> set ss. map_of m (flagKey x) = Some (JBool True) \<Longrightarrow>
     fold (\<lambda>x. AList.update (flagKey x) (JBool True)) ss m = m"
  by (induction ss) (simp_all add: AList.update_triv)

subsection \<open>The batch of inbound group sessions\<close>

lemma has_prop_readable: "has_prop h k v = Inr b \<Longrightarrow> \<exists>b'. has_prop h k' v = Inr b'"
  by (cases v) auto

lemma inboundBatchLoop_readable:
  "inboundBatchLoop h n store snb ks acc = Inr fl \<Longrightarrow>
     filter (\<lambda>key. startsWith key KEY_INBOUND_SESSION_PREFIX) ks \<noteq> [] \<Longrightarrow>
     \<exists>b. has_prop h k snb = Inr b"
proof (induction h n store snb ks acc rule: inboundBatchLoop.induct)
  case (1 h n store snb acc)
  then show ?case by simp
next
  case (2 h n store snb key rest acc)
  show ?case
  proof (cases "startsWith key KEY_INBOUND_SESSION_PREFIX")
    case False
    with 2 show ?thesis by simp
  next
    case True
    with 2(3) obtain nb where "has_prop h (drop (length KEY_INBOUND_SESSION_PREFIX) key) snb = Inr nb"
      by (cases "has_prop h (drop (length KEY_INBOUND_SESSION_PREFIX) key) snb") (auto simp: Let_def)
    then show ?thesis by (rule has_prop_readable)
  qed
qed

lemma getEndToEndInboundGroupSessionsBatch_flat:
  assumes "fst (getEndToEndInboundGroupSessionsBatch h n store) = Inr r"
  shows "r = (if inboundKeys store = [] then None
              else Some (take (max 1 n)
                (map (\<lambda>key. \<lparr>senderKey = take 43 (drop (length KEY_INBOUND_SESSION_PREFIX) key),
                             sessionId = drop 44 (drop (length KEY_INBOUND_SESSION_PREFIX) key),
                             sessionData = getJsonItem store key,
                             needsBackup =
                               (has_prop h (drop (length KEY_INBOUND_SESSION_PREFIX) key)
                                  (or_else (getJsonItem store KEY_SESSIONS_NEEDING_BACKUP) (JObject []))
                                = Inr True)\<rparr>)
                     (inboundKeys store))))"
proof -
  let ?snb = "or_else (getJsonItem store KEY_SESSIONS_NEEDING_BACKUP) (JObject [])"
  let ?rec = "\<lambda>key. \<lparr>senderKey = take 43 (drop (length KEY_INBOUND_SESSION_PREFIX) key),
                     sessionId = drop 44 (drop (length KEY_INBOUND_SESSION_PREFIX) key),
                     sessionData = getJsonItem store key,
                     needsBackup =
                       (has_prop h (drop (length KEY_INBOUND_SESSION_PREFIX) key) ?snb = Inr True)\<rparr>"
  from assms obtain fl where fl: "inboundBatchLoop h n store ?snb (keys store) [] = Inr fl"
    by (cases "inboundBatchLoop h n store ?snb (keys store) []")
       (auto simp: getEndToEndInboundGroupSessionsBatch_def Let_def)
  from inboundBatchLoop_flat [OF fl]
  have flat: "fl = pushSessions n (map ?rec (inboundKeys store)) []"
    by (simp add: inboundKeys_def)
  from assms fl
  have "r = (case fl of Returned r \<Rightarrow> Some r | Running r \<Rightarrow> if length r = 0 then None else Some r)"
    by (cases fl) (auto simp: getEndToEndInboundGroupSessionsBatch_def Let_def)
  with pushSessions_flat [of n "map ?rec (inboundKeys store)"] flat show ?thesis
    by simp
qed

lemma getEndToEndInboundGroupSessionsBatch_readable:
  assumes "fst (getEndToEndInboundGroupSessionsBatch h n store) = Inr r"
      and "inboundKeys store \<noteq> []"
  shows "\<exists>b. has_prop h k (or_else (getJsonItem store KEY_SESSIONS_NEEDING_BACKUP) (JObject []))
               = Inr b"
proof -
  let ?snb = "or_else (getJsonItem store KEY_SESSIONS_NEEDING_BACKUP) (JObject [])"
  from assms obtain fl where fl: "inboundBatchLoop h n store ?snb (keys store) [] = Inr fl"
    by (cases "inboundBatchLoop h n store ?snb (keys store) []")
       (auto simp: getEndToEndInboundGroupSessionsBatch_def Let_def)
  from inboundBatchLoop_readable [OF fl] assms(2) show ?thesis
    by (simp add: inboundKeys_def)
qed

lemma getEndToEndInboundGroupSessionsBatch_total:
  assumes "inboundKeys store = []
         \<or> (\<exists>m. or_else (getJsonItem store KEY_SESSIONS_NEEDING_BACKUP) (JObject []) = JObject m)
         \<or> (\<exists>ys. or_else (getJsonItem store KEY_SESSIONS_NEEDING_BACKUP) (JObject []) = JArray ys)"
  shows "\<exists>r. fst (getEndToEndInboundGroupSessionsBatch h n store) = Inr r"
proof -
  let ?snb = "or_else (getJsonItem store KEY_SESSIONS_NEEDING_BACKUP) (JObject [])"
  have "\<exists>fl. inboundBatchLoop h n store ?snb (keys store) [] = Inr fl"
  proof (cases "inboundKeys store = []")
    case True
    then show ?thesis
      by (simp add: inboundKeys_def inboundBatchLoop_none)
  next
    case False
    with assms have "\<forall>key \<in> set (keys store).
        has_prop h (drop (length KEY_INBOUND_SESSION_PREFIX) key) ?snb \<noteq> Inl TypeError"
      by auto
    then show ?thesis by (rule inboundBatchLoop_total)
  qed
  then obtain fl where "inboundBatchLoop h n store ?snb (keys store) [] = Inr fl" ..
  then show ?thesis
    by (cases fl) (simp_all add: getEndToEndInboundGroupSessionsBatch_def Let_def)
qed

lemma inbound_key_slices:
  "length K = 43 \<Longrightarrow>
     take 43 (drop (length KEY_INBOUND_SESSION_PREFIX) (keyEndToEndInboundGroupSession K S)) = K
     \<and> drop 44 (drop (length KEY_INBOUND_SESSION_PREFIX) (keyEndToEndInboundGroupSession K S)) = S"
  by (simp add: keyEndToEndInboundGroupSession_def)

lemma inbound_key_stored:
  "keyEndToEndInboundGroupSession K S
     \<in> set (inboundKeys (storeEndToEndInboundGroupSession K S d store))"
  by (simp add: inboundKeys_def storeEndToEndInboundGroupSession_def keys_setJsonItem
        startsWith_def keyEndToEndInboundGroupSession_def)

subsection \<open>A batch that is empty\<close>

lemma entries_or_else_nullish:
  "Object_entries (or_else v (JObject [])) = [] \<longleftrightarrow> Object_entries (nullish_or v (JObject [])) = []"
  by (cases v) (auto simp: or_else_def nullish_or_def)

lemma getEndToEndSessionsBatch_null_iff:
  assumes "\<forall>key \<in> set (keys store). startsWith key (keyEndToEndSessions []) \<longrightarrow>
             keyEndToEndSessions (second (split CHR ''/'' key)) = key
             \<and> ''__proto__'' \<notin> set (Object_keys (or_else (getJsonItem store key) (JObject [])))"
  shows "fst (getEndToEndSessionsBatch n store) = None \<longleftrightarrow> fst (countEndToEndSessions store) = 0"
proof -
  have "ownProps (priv_getEndToEndSessions store (second (split CHR ''/'' key))) = []
          \<longleftrightarrow> storedCount store key = 0"
    if "key \<in> set (keys store)" and "startsWith key (keyEndToEndSessions [])" for key
  proof -
    from that assms have key: "keyEndToEndSessions (second (split CHR ''/'' key)) = key"
      and "''__proto__'' \<notin> set (Object_keys (or_else (getJsonItem store key) (JObject [])))"
      by blast+
    then have "\<forall>kv \<in> set (Object_entries (or_else (getJsonItem store key) (JObject []))).
        fst kv \<noteq> ''__proto__''"
      by (simp add: no_key_iff Object_keys_def)
    from fixLoop_empty_iff_plain [OF this, of emptyObject] key show ?thesis
      by (simp add: priv_getEndToEndSessions_def storedCount_def entries_or_else_nullish
            Object_keys_def emptyObject_def)
  qed
  then have "scannedSessions store = [] \<longleftrightarrow>
      sum_list (map (storedCount store)
        (filter (\<lambda>key. startsWith key (keyEndToEndSessions [])) (keys store))) = 0"
    by (auto simp: scannedSessions_def)
  then show ?thesis
    by (simp add: getEndToEndSessionsBatch_flat countEndToEndSessions_def countLoop_sum)
qed

subsection \<open>A legacy session in the decoded mapping\<close>



lemma fixLoop_lookup_parsed:
  "distinct (map fst m) \<Longrightarrow> k \<noteq> ''__proto__'' \<Longrightarrow>
     map_of (ownProps (fixLoop m emptyObject)) k = map_option fixSession (map_of m k)"
  by (simp add: fixLoop_lookup emptyObject_def split: option.splits)

lemma count_list_member: "x \<in> set xs \<Longrightarrow> 1 \<le> count_list xs x"
  by (induction xs) auto


subsection \<open>A batch of deletions and the key of one device\<close>

lemma removeItem_deleteEndToEndSession_same:
  "removeItem (deleteEndToEndSession store (D, S)) (keyEndToEndSessions D)
     = removeItem store (keyEndToEndSessions D)"
  by (simp add: deleteEndToEndSession_def Let_def removeItem_def setJsonItem_def setItem_def
        AList.delete_update_same AList.delete_idem)

lemma removeItem_deleteEndToEndSession_other:
  assumes "D' \<noteq> D"
  shows "removeItem (deleteEndToEndSession store (D', S)) (keyEndToEndSessions D)
           = deleteEndToEndSession (removeItem store (keyEndToEndSessions D)) (D', S)"
proof -
  from assms have ne: "keyEndToEndSessions D' \<noteq> keyEndToEndSessions D"
    by (simp add: keyEndToEndSessions_inj)
  then have "priv_getEndToEndSessions (removeItem store (keyEndToEndSessions D)) D'
      = priv_getEndToEndSessions store D'"
    by (intro priv_getEndToEndSessions_cong) (simp add: getJsonItem_removeItem)
  with ne show ?thesis
    by (simp add: deleteEndToEndSession_def Let_def removeItem_def setJsonItem_def setItem_def
          AList.delete_update AList.delete_twist)
qed

lemma removeItem_deleteEndToEndSessionsBatch:
  "removeItem (deleteEndToEndSessionsBatch ps store) (keyEndToEndSessions D)
     = deleteEndToEndSessionsBatch (filter (\<lambda>p. fst p \<noteq> D) ps)
         (removeItem store (keyEndToEndSessions D))"
proof (induction ps arbitrary: store)
  case Nil
  then show ?case by (simp add: deleteEndToEndSessionsBatch_def)
next
  case (Cons p ps)
  obtain D' S' where p: "p = (D', S')" by (cases p)
  show ?case
  proof (cases "D' = D")
    case True
    with Cons.IH [of "deleteEndToEndSession store (D, S')"] p show ?thesis
      by (simp add: deleteEndToEndSessionsBatch_def removeItem_deleteEndToEndSession_same)
  next
    case False
    with Cons.IH [of "deleteEndToEndSession store (D', S')"] p show ?thesis
      by (simp add: deleteEndToEndSessionsBatch_def removeItem_deleteEndToEndSession_other)
  qed
qed

lemma getItem_None_iff: "getItem store key = None \<longleftrightarrow> key \<notin> set (keys store)"
  by (simp add: getItem_def keys_def map_of_eq_None_iff)

lemma countEndToEndSessions_without:
  assumes "key \<notin> set (keys store)"
  shows "fst (countEndToEndSessions store)
           = sum_list (map (storedCount store)
               (filter (\<lambda>k. startsWith k (keyEndToEndSessions []) \<and> k \<noteq> key) (keys store)))"
proof -
  from assms have "filter (\<lambda>k. startsWith k (keyEndToEndSessions [])) (keys store)
      = filter (\<lambda>k. startsWith k (keyEndToEndSessions []) \<and> k \<noteq> key) (keys store)"
    by (intro filter_cong refl) auto
  then show ?thesis
    by (simp add: countEndToEndSessions_def countLoop_sum)
qed

section \<open>The claims\<close>

subsection \<open>Composite keys of inbound group sessions\<close>

text \<open>
  Claim C1. Let \<open>K\<close> be a sender key of 43 characters and \<open>S\<close> any session id.
  Whenever \<^verbatim>\<open>getEndToEndInboundGroupSessionsBatch\<close> returns, for any batch size, it
  returns \<^verbatim>\<open>null\<close> when no key is under the prefix of inbound group sessions, and
  otherwise the records of the first keys under that prefix, in storage order, as many
  as the batch size (at least one) or all of them when they are fewer. The record at
  position \<open>i\<close> is decoded from the \<open>i\<close>-th such key: its \<^verbatim>\<open>senderKey\<close> is the first 43
  characters behind the prefix, its \<^verbatim>\<open>sessionId\<close> what follows from offset 44, its
  \<^verbatim>\<open>sessionData\<close> what is stored under the key, its \<^verbatim>\<open>needsBackup\<close> the result of
  \<^verbatim>\<open>in\<close> on the backup index; and where that key is the key of \<open>(K, S)\<close>, the record
  has \<^verbatim>\<open>senderKey\<close> \<open>K\<close> and \<^verbatim>\<open>sessionId\<close> \<open>S\<close>. The method returns (without a
  \<^verbatim>\<open>TypeError\<close>) when the backup index is absent, unreadable, an object or an array, or
  when there is no inbound group session; it leaves the storage as it was. Storing a
  session under \<open>(K, S)\<close> puts its key among the keys that the batch decodes, with the
  stored data.
\<close>

theorem inbound_key_roundtrip:
  assumes "length K = 43"
  shows "(\<forall>h n store r. fst (getEndToEndInboundGroupSessionsBatch h n store) = Inr r \<longrightarrow>
           (\<exists>xs. r = (if inboundKeys store = [] then None else Some xs)
                \<and> length xs = min (max 1 n) (length (inboundKeys store))
                \<and> (\<forall>i < length xs.
                      senderKey (xs ! i)
                        = take 43 (drop (length KEY_INBOUND_SESSION_PREFIX) (inboundKeys store ! i))
                    \<and> sessionId (xs ! i)
                        = drop 44 (drop (length KEY_INBOUND_SESSION_PREFIX) (inboundKeys store ! i))
                    \<and> sessionData (xs ! i) = getJsonItem store (inboundKeys store ! i)
                    \<and> has_prop h (drop (length KEY_INBOUND_SESSION_PREFIX) (inboundKeys store ! i))
                         (or_else (getJsonItem store KEY_SESSIONS_NEEDING_BACKUP) (JObject []))
                        = Inr (needsBackup (xs ! i))
                    \<and> (inboundKeys store ! i = keyEndToEndInboundGroupSession K S \<longrightarrow>
                          senderKey (xs ! i) = K \<and> sessionId (xs ! i) = S))))
       \<and> (\<forall>h n store.
             inboundKeys store = []
             \<or> (\<exists>m. or_else (getJsonItem store KEY_SESSIONS_NEEDING_BACKUP) (JObject []) = JObject m)
             \<or> (\<exists>ys. or_else (getJsonItem store KEY_SESSIONS_NEEDING_BACKUP) (JObject []) = JArray ys)
             \<longrightarrow> (\<exists>r. fst (getEndToEndInboundGroupSessionsBatch h n store) = Inr r))
       \<and> (\<forall>h n store. snd (getEndToEndInboundGroupSessionsBatch h n store) = store)
       \<and> (\<forall>d store.
             keyEndToEndInboundGroupSession K S
               \<in> set (inboundKeys (storeEndToEndInboundGroupSession K S d store))
             \<and> getJsonItem (storeEndToEndInboundGroupSession K S d store)
                 (keyEndToEndInboundGroupSession K S) = d)"
proof -
  let ?L = "length KEY_INBOUND_SESSION_PREFIX"
  have batch: "\<exists>xs. r = (if inboundKeys store = [] then None else Some xs)
                \<and> length xs = min (max 1 n) (length (inboundKeys store))
                \<and> (\<forall>i < length xs.
                      senderKey (xs ! i) = take 43 (drop ?L (inboundKeys store ! i))
                    \<and> sessionId (xs ! i) = drop 44 (drop ?L (inboundKeys store ! i))
                    \<and> sessionData (xs ! i) = getJsonItem store (inboundKeys store ! i)
                    \<and> has_prop h (drop ?L (inboundKeys store ! i))
                         (or_else (getJsonItem store KEY_SESSIONS_NEEDING_BACKUP) (JObject []))
                        = Inr (needsBackup (xs ! i))
                    \<and> (inboundKeys store ! i = keyEndToEndInboundGroupSession K S \<longrightarrow>
                          senderKey (xs ! i) = K \<and> sessionId (xs ! i) = S))"
    if r: "fst (getEndToEndInboundGroupSessionsBatch h n store) = Inr r" for h n store r
  proof -
    let ?snb = "or_else (getJsonItem store KEY_SESSIONS_NEEDING_BACKUP) (JObject [])"
    let ?rec = "\<lambda>key. \<lparr>senderKey = take 43 (drop ?L key), sessionId = drop 44 (drop ?L key),
                       sessionData = getJsonItem store key,
                       needsBackup = (has_prop h (drop ?L key) ?snb = Inr True)\<rparr>"
    let ?xs = "take (max 1 n) (map ?rec (inboundKeys store))"
    from getEndToEndInboundGroupSessionsBatch_flat [OF r]
    have res: "r = (if inboundKeys store = [] then None else Some ?xs)" .
    have len: "length ?xs = min (max 1 n) (length (inboundKeys store))"
      by (simp add: min.commute)
    have nth: "?xs ! i = ?rec (inboundKeys store ! i)" if "i < length ?xs" for i
      using that by simp
    have "senderKey (?xs ! i) = take 43 (drop ?L (inboundKeys store ! i))
        \<and> sessionId (?xs ! i) = drop 44 (drop ?L (inboundKeys store ! i))
        \<and> sessionData (?xs ! i) = getJsonItem store (inboundKeys store ! i)
        \<and> has_prop h (drop ?L (inboundKeys store ! i)) ?snb = Inr (needsBackup (?xs ! i))
        \<and> (inboundKeys store ! i = keyEndToEndInboundGroupSession K S \<longrightarrow>
              senderKey (?xs ! i) = K \<and> sessionId (?xs ! i) = S)"
      if i: "i < length ?xs" for i
    proof -
      from i have "inboundKeys store \<noteq> []" by auto
      from getEndToEndInboundGroupSessionsBatch_readable [OF r this]
      obtain b where b: "has_prop h (drop ?L (inboundKeys store ! i)) ?snb = Inr b"
        by blast
      have fields: "senderKey (?xs ! i) = take 43 (drop ?L (inboundKeys store ! i))"
        "sessionId (?xs ! i) = drop 44 (drop ?L (inboundKeys store ! i))"
        "sessionData (?xs ! i) = getJsonItem store (inboundKeys store ! i)"
        "needsBackup (?xs ! i) = (has_prop h (drop ?L (inboundKeys store ! i)) ?snb = Inr True)"
        unfolding nth [OF i] by simp_all
      from b fields(4) have "has_prop h (drop ?L (inboundKeys store ! i)) ?snb
          = Inr (needsBackup (?xs ! i))"
        by simp
      with fields(1,2,3) inbound_key_slices [OF assms, of S] show ?thesis
        by simp
    qed
    with res len show ?thesis by blast
  qed
  have total: "\<exists>r. fst (getEndToEndInboundGroupSessionsBatch h n store) = Inr r"
    if "inboundKeys store = []
        \<or> (\<exists>m. or_else (getJsonItem store KEY_SESSIONS_NEEDING_BACKUP) (JObject []) = JObject m)
        \<or> (\<exists>ys. or_else (getJsonItem store KEY_SESSIONS_NEEDING_BACKUP) (JObject []) = JArray ys)"
    for h n store
    using that by (rule getEndToEndInboundGroupSessionsBatch_total)
  have frame: "snd (getEndToEndInboundGroupSessionsBatch h n store) = store" for h n store
    by (simp add: getEndToEndInboundGroupSessionsBatch_def Let_def)
  have listed: "keyEndToEndInboundGroupSession K S
               \<in> set (inboundKeys (storeEndToEndInboundGroupSession K S d store))" for d store
    by (rule inbound_key_stored)
  have stored: "getJsonItem (storeEndToEndInboundGroupSession K S d store)
                 (keyEndToEndInboundGroupSession K S) = d" for d store
    by (simp add: storeEndToEndInboundGroupSession_def getJsonItem_setJsonItem)
  from batch total frame listed stored show ?thesis
    by (intro conjI allI impI)
qed

theorem inbound_key_roundtrip_witness:
  "length ''hPQNcabIABgGnx3/ACv/jmMmiQHoeFfuLB17tzWp6Hw'' = 43
   \<and> fst (getEndToEndInboundGroupSessionsBatch
            \<lparr>objectPrototypeNames = [''constructor'', ''toString''], arrayPrototypeNames = [''push'']\<rparr> 1
            (storeEndToEndInboundGroupSession ''hPQNcabIABgGnx3/ACv/jmMmiQHoeFfuLB17tzWp6Hw'' ''abc/def''
               (JString ''data'')
               [(''crypto.inboundgroupsessions/aPQNcabIABgGnx3/ACv/jmMmiQHoeFfuLB17tzWp6Hw/xyz'',
                 Valid (JString ''other''))]))
       = Inr (Some [\<lparr>senderKey = ''aPQNcabIABgGnx3/ACv/jmMmiQHoeFfuLB17tzWp6Hw'', sessionId = ''xyz'',
                      sessionData = JString ''other'', needsBackup = False\<rparr>])
   \<and> fst (getEndToEndInboundGroupSessionsBatch
            \<lparr>objectPrototypeNames = [''constructor'', ''toString''], arrayPrototypeNames = [''push'']\<rparr> 2
            (storeEndToEndInboundGroupSession ''hPQNcabIABgGnx3/ACv/jmMmiQHoeFfuLB17tzWp6Hw'' ''abc/def''
               (JString ''data'')
               [(''crypto.inboundgroupsessions/aPQNcabIABgGnx3/ACv/jmMmiQHoeFfuLB17tzWp6Hw/xyz'',
                 Valid (JString ''other''))]))
       = Inr (Some [\<lparr>senderKey = ''aPQNcabIABgGnx3/ACv/jmMmiQHoeFfuLB17tzWp6Hw'', sessionId = ''xyz'',
                      sessionData = JString ''other'', needsBackup = False\<rparr>,
                    \<lparr>senderKey = ''hPQNcabIABgGnx3/ACv/jmMmiQHoeFfuLB17tzWp6Hw'', sessionId = ''abc/def'',
                      sessionData = JString ''data'', needsBackup = False\<rparr>])
   \<and> snd (getEndToEndInboundGroupSessionsBatch
            \<lparr>objectPrototypeNames = [''constructor'', ''toString''], arrayPrototypeNames = [''push'']\<rparr> 2
            (storeEndToEndInboundGroupSession ''hPQNcabIABgGnx3/ACv/jmMmiQHoeFfuLB17tzWp6Hw'' ''abc/def''
               (JString ''data'')
               [(''crypto.inboundgroupsessions/aPQNcabIABgGnx3/ACv/jmMmiQHoeFfuLB17tzWp6Hw/xyz'',
                 Valid (JString ''other''))]))
       = storeEndToEndInboundGroupSession ''hPQNcabIABgGnx3/ACv/jmMmiQHoeFfuLB17tzWp6Hw'' ''abc/def''
               (JString ''data'')
               [(''crypto.inboundgroupsessions/aPQNcabIABgGnx3/ACv/jmMmiQHoeFfuLB17tzWp6Hw/xyz'',
                 Valid (JString ''other''))]"
proof -
  let ?K = "''hPQNcabIABgGnx3/ACv/jmMmiQHoeFfuLB17tzWp6Hw''"
  let ?h = "\<lparr>objectPrototypeNames = [''constructor'', ''toString''], arrayPrototypeNames = [''push'']\<rparr>"
  let ?st = "storeEndToEndInboundGroupSession ?K ''abc/def'' (JString ''data'')
               [(''crypto.inboundgroupsessions/aPQNcabIABgGnx3/ACv/jmMmiQHoeFfuLB17tzWp6Hw/xyz'',
                 Valid (JString ''other''))]"
  have h: "length ?K = 43" by simp
  note t = inbound_key_roundtrip [OF h, of "''abc/def''"]
  have st: "?st = [(''crypto.inboundgroupsessions/aPQNcabIABgGnx3/ACv/jmMmiQHoeFfuLB17tzWp6Hw/xyz'',
                    Valid (JString ''other'')),
                   (''crypto.inboundgroupsessions/hPQNcabIABgGnx3/ACv/jmMmiQHoeFfuLB17tzWp6Hw/abc/def'',
                    Valid (JString ''data''))]"
    by (simp add: storeEndToEndInboundGroupSession_def setJsonItem_def setItem_def key_defs)
  have e1: "fst (getEndToEndInboundGroupSessionsBatch ?h 1 ?st)
       = Inr (Some [\<lparr>senderKey = ''aPQNcabIABgGnx3/ACv/jmMmiQHoeFfuLB17tzWp6Hw'', sessionId = ''xyz'',
                      sessionData = JString ''other'', needsBackup = False\<rparr>])"
    unfolding st
    by (simp add: getEndToEndInboundGroupSessionsBatch_def keys_def getJsonItem_def getItem_def
          or_else_def key_defs startsWith_def Let_def)
  have e2: "fst (getEndToEndInboundGroupSessionsBatch ?h 2 ?st)
       = Inr (Some [\<lparr>senderKey = ''aPQNcabIABgGnx3/ACv/jmMmiQHoeFfuLB17tzWp6Hw'', sessionId = ''xyz'',
                      sessionData = JString ''other'', needsBackup = False\<rparr>,
                    \<lparr>senderKey = ?K, sessionId = ''abc/def'',
                      sessionData = JString ''data'', needsBackup = False\<rparr>])"
    unfolding st
    by (simp add: getEndToEndInboundGroupSessionsBatch_def keys_def getJsonItem_def getItem_def
          or_else_def key_defs startsWith_def Let_def)
  from t have "snd (getEndToEndInboundGroupSessionsBatch ?h 2 ?st) = ?st" by blast
  with h e1 e2 show ?thesis by (simp only: simp_thms)
qed

subsection \<open>Legacy sessions on read\<close>



subsection \<open>Batches of Olm sessions\<close>

text \<open>
  Claim C3. \<^verbatim>\<open>getEndToEndSessionsBatch\<close> takes the device key out of a storage key
  by \<^verbatim>\<open>split("/")[1]\<close>, which stops at the first separator inside the device key. On
  a store whose only sessions belong to a device whose (base64) key holds a separator,
  it reads the sessions of another, absent device: it returns \<^verbatim>\<open>null\<close> for every batch
  size, while \<^verbatim>\<open>countEndToEndSessions\<close> counts one session and
  \<^verbatim>\<open>getEndToEndSessions\<close> returns it. (Where every sessions key gives back its device
  key under that split and no stored mapping has the name \<^verbatim>\<open>__proto__\<close>, the batch is
  \<^verbatim>\<open>null\<close> exactly when the count is zero: lemma \<open>getEndToEndSessionsBatch_null_iff\<close>; and the batch is always the first sessions the
  scan meets, up to the batch size: lemma \<open>getEndToEndSessionsBatch_flat\<close>.)
\<close>

theorem getEndToEndSessionsBatch_separator_in_device_key:
  "fst (getEndToEndSessionsBatch n
     [(''crypto.sessions/hPQNcabIABgGnx3/ACv/jmMmiQHoeFfuLB17tzWp6Hw'',
       Valid (JObject [(''sid'', JObject [(''session'', JString ''pickle'')])]))]) = None
   \<and> fst (countEndToEndSessions
     [(''crypto.sessions/hPQNcabIABgGnx3/ACv/jmMmiQHoeFfuLB17tzWp6Hw'',
       Valid (JObject [(''sid'', JObject [(''session'', JString ''pickle'')])]))]) = 1
   \<and> fst (getEndToEndSessions ''hPQNcabIABgGnx3/ACv/jmMmiQHoeFfuLB17tzWp6Hw''
     [(''crypto.sessions/hPQNcabIABgGnx3/ACv/jmMmiQHoeFfuLB17tzWp6Hw'',
       Valid (JObject [(''sid'', JObject [(''session'', JString ''pickle'')])]))])
     = \<lparr>ownProps = [(''sid'', JObject [(''session'', JString ''pickle'')])],
        prototypeOf = ObjectPrototype\<rparr>
   \<and> second (split CHR ''/'' ''crypto.sessions/hPQNcabIABgGnx3/ACv/jmMmiQHoeFfuLB17tzWp6Hw'')
     = ''hPQNcabIABgGnx3''"
  by (simp add: getItem_def key_defs getEndToEndSessionsBatch_flat scannedSessions_def keys_def
        startsWith_def priv_getEndToEndSessions_def getJsonItem_def or_else_def fixSession_def
        countEndToEndSessions_def countLoop_sum storedCount_def nullish_or_def Object_keys_def
        getEndToEndSessions_def emptyObject_def assign_def)

subsection \<open>Deleting the last session of a device\<close>

text \<open>
  Claim C4, as the code has it. Let a batch \<open>ps\<close> hold a pair of the device \<open>D\<close>, and a
  pair \<open>(D, S)\<close> for every session \<open>S\<close> that \<^verbatim>\<open>getEndToEndSessions\<close> returns for \<open>D\<close>:
  the batch takes the last sessions of \<open>D\<close>. Then \<^verbatim>\<open>deleteEndToEndSessionsBatch\<close> of
  \<open>ps\<close> is the removal of the key of \<open>D\<close> together with the deletions that \<open>ps\<close> asks
  for the other devices: the key of \<open>D\<close> reads as absent and is no longer among the keys,
  \<^verbatim>\<open>countEndToEndSessions\<close> afterwards is the sum of the session counts of the other
  keys only, and a key of no device of the batch is as it was. More generally, a store
  in which every sessions key holds at least one session stays so under every writing
  method of the class, apart from \<^verbatim>\<open>storeEndToEndSession\<close> with the session id
  \<^verbatim>\<open>__proto__\<close>.
\<close>

theorem last_session_removes_device_key:
  assumes "D \<in> fst ` set ps"
      and "set (map fst (ownProps (fst (getEndToEndSessions D store)))) \<subseteq> {S. (D, S) \<in> set ps}"
  shows "getItem (deleteEndToEndSessionsBatch ps store) (keyEndToEndSessions D) = None
       \<and> keyEndToEndSessions D \<notin> set (keys (deleteEndToEndSessionsBatch ps store))
       \<and> deleteEndToEndSessionsBatch ps store
           = deleteEndToEndSessionsBatch (filter (\<lambda>p. fst p \<noteq> D) ps)
               (removeItem store (keyEndToEndSessions D))
       \<and> fst (countEndToEndSessions (deleteEndToEndSessionsBatch ps store))
           = sum_list (map (storedCount (deleteEndToEndSessionsBatch ps store))
               (filter (\<lambda>key. startsWith key (keyEndToEndSessions []) \<and> key \<noteq> keyEndToEndSessions D)
                  (keys (deleteEndToEndSessionsBatch ps store))))
       \<and> (\<forall>k. k \<notin> keyEndToEndSessions ` fst ` set ps \<longrightarrow>
             getItem (deleteEndToEndSessionsBatch ps store) k = getItem store k)
       \<and> (\<forall>op st st'. noEmptyContainer st \<and> plainOperation op \<and> perform op st = Inr st' \<longrightarrow>
             noEmptyContainer st')"
proof -
  let ?key = "keyEndToEndSessions D"
  let ?store = "deleteEndToEndSessionsBatch ps store"
  from assms(2)
  have names: "set (map fst (ownProps (priv_getEndToEndSessions store D))) \<subseteq> {S. (D, S) \<in> set ps}"
    by (simp add: getEndToEndSessions_def)
  from assms(1) have "D \<in> fst ` set ps \<or> getItem store ?key = None" ..
  with names have gone: "getItem ?store ?key = None"
    by (rule deleteEndToEndSessionsBatch_removes)
  then have absent: "?key \<notin> set (keys ?store)"
    by (simp add: getItem_None_iff)
  from gone have "removeItem ?store ?key = ?store" by (rule removeItem_absent)
  with removeItem_deleteEndToEndSessionsBatch [of ps store D]
  have split: "?store = deleteEndToEndSessionsBatch (filter (\<lambda>p. fst p \<noteq> D) ps)
      (removeItem store ?key)"
    by simp
  from absent have count: "fst (countEndToEndSessions ?store)
      = sum_list (map (storedCount ?store)
          (filter (\<lambda>key. startsWith key (keyEndToEndSessions []) \<and> key \<noteq> ?key) (keys ?store)))"
    by (rule countEndToEndSessions_without)
  have frame: "\<forall>k. k \<notin> keyEndToEndSessions ` fst ` set ps \<longrightarrow> getItem ?store k = getItem store k"
    by (simp add: deleteEndToEndSessionsBatch_other_key)
  have inv: "\<forall>op st st'. noEmptyContainer st \<and> plainOperation op \<and> perform op st = Inr st' \<longrightarrow>
      noEmptyContainer st'"
    using noEmptyContainer_perform by blast
  from gone absent split count frame inv show ?thesis
    by (intro conjI)
qed

theorem last_session_removes_device_key_witness:
  "''dev'' \<in> fst ` set [(''dev'', ''s1''), (''dev2'', ''t1''), (''dev'', ''s2'')]
   \<and> set (map fst (ownProps (fst (getEndToEndSessions ''dev''
        [(''crypto.sessions/dev'',
          Valid (JObject [(''s1'', JString ''p1''), (''s2'', JObject [(''session'', JString ''p2'')])])),
         (''crypto.sessions/dev2'',
          Valid (JObject [(''t1'', JString ''q1''), (''t2'', JString ''q2'')]))]))))
       \<subseteq> {S. (''dev'', S) \<in> set [(''dev'', ''s1''), (''dev2'', ''t1''), (''dev'', ''s2'')]}
   \<and> deleteEndToEndSessionsBatch [(''dev'', ''s1''), (''dev2'', ''t1''), (''dev'', ''s2'')]
        [(''crypto.sessions/dev'',
          Valid (JObject [(''s1'', JString ''p1''), (''s2'', JObject [(''session'', JString ''p2'')])])),
         (''crypto.sessions/dev2'',
          Valid (JObject [(''t1'', JString ''q1''), (''t2'', JString ''q2'')]))]
     = [(''crypto.sessions/dev2'', Valid (JObject [(''t2'', JObject [(''session'', JString ''q2'')])]))]
   \<and> getItem (deleteEndToEndSessionsBatch [(''dev'', ''s1''), (''dev2'', ''t1''), (''dev'', ''s2'')]
        [(''crypto.sessions/dev'',
          Valid (JObject [(''s1'', JString ''p1''), (''s2'', JObject [(''session'', JString ''p2'')])])),
         (''crypto.sessions/dev2'',
          Valid (JObject [(''t1'', JString ''q1''), (''t2'', JString ''q2'')]))])
        (keyEndToEndSessions ''dev'') = None
   \<and> fst (countEndToEndSessions
        (deleteEndToEndSessionsBatch [(''dev'', ''s1''), (''dev2'', ''t1''), (''dev'', ''s2'')]
           [(''crypto.sessions/dev'',
             Valid (JObject [(''s1'', JString ''p1''), (''s2'', JObject [(''session'', JString ''p2'')])])),
            (''crypto.sessions/dev2'',
             Valid (JObject [(''t1'', JString ''q1''), (''t2'', JString ''q2'')]))])) = 1"
proof -
  let ?ps = "[(''dev'', ''s1''), (''dev2'', ''t1''), (''dev'', ''s2'')]"
  let ?st = "[(''crypto.sessions/dev'',
          Valid (JObject [(''s1'', JString ''p1''), (''s2'', JObject [(''session'', JString ''p2'')])])),
         (''crypto.sessions/dev2'',
          Valid (JObject [(''t1'', JString ''q1''), (''t2'', JString ''q2'')]))]"
  have h1: "''dev'' \<in> fst ` set ?ps" by simp
  have priv: "ownProps (priv_getEndToEndSessions ?st ''dev'')
      = [(''s1'', JObject [(''session'', JString ''p1'')]),
         (''s2'', JObject [(''session'', JString ''p2'')])]"
    by (simp add: priv_getEndToEndSessions_def getJsonItem_def getItem_def or_else_def key_defs
          fixSession_def emptyObject_def assign_def precedes_def arrayIndex_def digitsValue_def
          decimal.simps digit_char_def)
  have h2: "set (map fst (ownProps (fst (getEndToEndSessions ''dev'' ?st))))
      \<subseteq> {S. (''dev'', S) \<in> set ?ps}"
    unfolding getEndToEndSessions_def fst_conv priv by simp
  note t = last_session_removes_device_key [OF h1 h2]
  from t have gone: "getItem (deleteEndToEndSessionsBatch ?ps ?st) (keyEndToEndSessions ''dev'') = None"
    by blast
  from t have "deleteEndToEndSessionsBatch ?ps ?st
      = deleteEndToEndSessionsBatch (filter (\<lambda>p. fst p \<noteq> ''dev'') ?ps)
          (removeItem ?st (keyEndToEndSessions ''dev''))"
    by blast
  also have "\<dots> = deleteEndToEndSessionsBatch [(''dev2'', ''t1'')]
      [(''crypto.sessions/dev2'', Valid (JObject [(''t1'', JString ''q1''), (''t2'', JString ''q2'')]))]"
    by (simp add: removeItem_def key_defs)
  also have "\<dots> = [(''crypto.sessions/dev2'',
      Valid (JObject [(''t2'', JObject [(''session'', JString ''q2'')])]))]"
    by (simp add: deleteEndToEndSessionsBatch_def deleteEndToEndSession_def
          priv_getEndToEndSessions_def getJsonItem_def getItem_def or_else_def key_defs
          fixSession_def emptyObject_def assign_def precedes_def arrayIndex_def digitsValue_def
          decimal.simps digit_char_def delete_prop_def stringify_def setJsonItem_def setItem_def)
  finally have res: "deleteEndToEndSessionsBatch ?ps ?st
      = [(''crypto.sessions/dev2'', Valid (JObject [(''t2'', JObject [(''session'', JString ''q2'')])]))]" .
  have cnt: "fst (countEndToEndSessions (deleteEndToEndSessionsBatch ?ps ?st)) = 1"
    unfolding res
    by (simp add: countEndToEndSessions_def keys_def startsWith_def key_defs getJsonItem_def
          getItem_def nullish_or_def Object_keys_def)
  from h1 h2 res gone cnt show ?thesis by (intro conjI)
qed

text \<open>
  Claim C4, as it is stated, fails for \<^verbatim>\<open>storeEndToEndSession\<close> with the session id
  \<^verbatim>\<open>__proto__\<close>: the assignment sets the prototype of the mapping and creates no
  property, so that for a device without sessions the empty object is stored, which
  \<^verbatim>\<open>countEndToEndSessions\<close> counts as no session.
\<close>

theorem storeEndToEndSession_proto_leaves_empty_container:
  "noEmptyContainer []
   \<and> perform (StoreEndToEndSession ''dev'' ''__proto__'' (JObject [(''session'', JString ''pickle'')])) []
       = Inr [(''crypto.sessions/dev'', Valid (JObject []))]
   \<and> \<not> noEmptyContainer [(''crypto.sessions/dev'', Valid (JObject []))]
   \<and> fst (countEndToEndSessions [(''crypto.sessions/dev'', Valid (JObject []))]) = 0"
  by (simp add: noEmptyContainer_def keys_def storeEndToEndSession_def priv_getEndToEndSessions_def
        getJsonItem_def getItem_def or_else_def emptyObject_def assign_def stringify_def
        setJsonItem_def setItem_def key_defs startsWith_def storedCount_def nullish_or_def
        Object_keys_def countEndToEndSessions_def)

subsection \<open>Deleting a session that does not exist\<close>




subsection \<open>Migration state\<close>

text \<open>
  Claim C6. On a store whose migration-state key is absent, and on one where the
  stored text does not parse, \<^verbatim>\<open>getMigrationState\<close> returns \<^verbatim>\<open>NOT_STARTED\<close> and leaves
  the store as it was; the result is not \<^verbatim>\<open>null\<close> (for a \<^verbatim>\<open>NOT_STARTED\<close> that is
  not \<^verbatim>\<open>null\<close>), and no failure is possible, the function having no error result.
\<close>

theorem getMigrationState_not_started:
  assumes "getItem store KEY_END_TO_END_MIGRATION_STATE = None
         \<or> (\<exists>s. getItem store KEY_END_TO_END_MIGRATION_STATE = Some (Invalid s))"
  shows "getMigrationState NOT_STARTED store = (NOT_STARTED, store)
       \<and> (NOT_STARTED \<noteq> JNull \<longrightarrow> fst (getMigrationState NOT_STARTED store) \<noteq> JNull)"
  using assms by (auto simp: getMigrationState_def getJsonItem_def nullish_or_def)

theorem getMigrationState_not_started_witness:
  "(getItem [(''crypto.migration'', Invalid ''{bad'')] KEY_END_TO_END_MIGRATION_STATE = None
      \<or> (\<exists>s. getItem [(''crypto.migration'', Invalid ''{bad'')] KEY_END_TO_END_MIGRATION_STATE
               = Some (Invalid s)))
   \<and> getMigrationState (JNumber 0) [(''crypto.migration'', Invalid ''{bad'')]
       = (JNumber 0, [(''crypto.migration'', Invalid ''{bad'')])
   \<and> JNumber 0 \<noteq> JNull
   \<and> fst (getMigrationState (JNumber 0) [(''crypto.migration'', Invalid ''{bad'')]) \<noteq> JNull"
  using getMigrationState_not_started [of "[(''crypto.migration'', Invalid ''{bad'')]" "JNumber 0"]
  by (simp add: getItem_def key_defs)

subsection \<open>Deleting all data\<close>

text \<open>
  Claim C7. \<^verbatim>\<open>deleteAllData\<close> removes the entry of the key \<^verbatim>\<open>crypto.account\<close> and
  nothing else: the storage afterwards is the storage before without that entry, the
  other entries in their order, so that every other key reads as it did.
\<close>

theorem deleteAllData_frame:
  "deleteAllData store = filter (\<lambda>kv. fst kv \<noteq> KEY_END_TO_END_ACCOUNT) store
   \<and> KEY_END_TO_END_ACCOUNT = ''crypto.account''
   \<and> getItem (deleteAllData store) KEY_END_TO_END_ACCOUNT = None
   \<and> (\<forall>k. k \<noteq> KEY_END_TO_END_ACCOUNT \<longrightarrow> getItem (deleteAllData store) k = getItem store k)"
proof -
  have "AList.delete KEY_END_TO_END_ACCOUNT store
          = filter (\<lambda>kv. fst kv \<noteq> KEY_END_TO_END_ACCOUNT) store"
    by (induction store) auto
  moreover have "map_of (AList.delete KEY_END_TO_END_ACCOUNT store) KEY_END_TO_END_ACCOUNT = None"
    by (simp add: AList.delete_conv')
  moreover have "\<forall>k. k \<noteq> KEY_END_TO_END_ACCOUNT \<longrightarrow>
      map_of (AList.delete KEY_END_TO_END_ACCOUNT store) k = map_of store k"
    by simp
  moreover have "KEY_END_TO_END_ACCOUNT = ''crypto.account''"
    by (simp add: key_defs)
  ultimately show ?thesis
    by (simp only: deleteAllData_def removeItem_def getItem_def simp_thms)
qed

theorem deleteAllData_frame_witness:
  "deleteAllData
     [(''crypto.migration'', Valid (JNumber 1)),
      (''crypto.account'', Valid (JString ''pickle'')),
      (''crypto.sessions/dev'', Valid (JObject [(''sid'', JString ''p'')]))]
   = [(''crypto.migration'', Valid (JNumber 1)),
      (''crypto.sessions/dev'', Valid (JObject [(''sid'', JString ''p'')]))]
   \<and> ''crypto.sessions/dev'' \<noteq> KEY_END_TO_END_ACCOUNT
   \<and> getItem (deleteAllData
        [(''crypto.migration'', Valid (JNumber 1)),
         (''crypto.account'', Valid (JString ''pickle'')),
         (''crypto.sessions/dev'', Valid (JObject [(''sid'', JString ''p'')]))])
        ''crypto.sessions/dev''
      = Some (Valid (JObject [(''sid'', JString ''p'')]))"
  using deleteAllData_frame
    [of "[(''crypto.migration'', Valid (JNumber 1)),
          (''crypto.account'', Valid (JString ''pickle'')),
          (''crypto.sessions/dev'', Valid (JObject [(''sid'', JString ''p'')]))]"]
  by (simp add: getItem_def key_defs)

subsection \<open>Sessions needing backup\<close>

text \<open>
  Claim C8. Let the backup index be absent, unreadable or an object \<open>m\<close> (with distinct
  names). \<^verbatim>\<open>markSessionsNeedingBackup\<close> then succeeds and stores an object \<open>m'\<close> in which
  every given session has exactly one entry, under its composite key and with the value
  \<^verbatim>\<open>true\<close>; every entry of \<open>m\<close> is still there, with its value unless it was marked,
  and an entry that was \<^verbatim>\<open>true\<close> is \<^verbatim>\<open>true\<close>. Marking the sessions twice in one call
  gives the same result as marking them once, and a second call with the same sessions
  leaves the storage as the first call left it.
\<close>

theorem markSessionsNeedingBackup_idempotent_monotone:
  assumes "or_else (getJsonItem store KEY_SESSIONS_NEEDING_BACKUP) (JObject []) = JObject m"
      and "distinct (map fst m)"
  shows "\<exists>m'. markSessionsNeedingBackup ss store
                 = Inr (setJsonItem store KEY_SESSIONS_NEEDING_BACKUP (JObject m'))
           \<and> (\<forall>x \<in> set ss. filter (\<lambda>kv. fst kv = flagKey x) m' = [(flagKey x, JBool True)])
           \<and> (\<forall>k v. map_of m k = Some v \<and> k \<notin> flagKey ` set ss \<longrightarrow> map_of m' k = Some v)
           \<and> (\<forall>k. map_of m k = Some (JBool True) \<longrightarrow> map_of m' k = Some (JBool True))
           \<and> fst ` set m \<subseteq> fst ` set m'
           \<and> markSessionsNeedingBackup (ss @ ss) store = markSessionsNeedingBackup ss store
           \<and> markSessionsNeedingBackup ss (setJsonItem store KEY_SESSIONS_NEEDING_BACKUP (JObject m'))
               = Inr (setJsonItem store KEY_SESSIONS_NEEDING_BACKUP (JObject m'))"
proof -
  let ?K = KEY_SESSIONS_NEEDING_BACKUP
  let ?m' = "fold (\<lambda>x. AList.update (flagKey x) (JBool True)) ss m"
  have again: "fold (\<lambda>x. AList.update (flagKey x) (JBool True)) ss ?m' = ?m'"
    by (rule marked_again) (simp add: map_of_marked)
  have one: "markSessionsNeedingBackup ss store = Inr (setJsonItem store ?K (JObject ?m'))"
    using assms(1) by (simp add: markSessionsNeedingBackup_def markLoop_object)
  have two: "markSessionsNeedingBackup (ss @ ss) store = Inr (setJsonItem store ?K (JObject ?m'))"
    using assms(1) by (simp add: markSessionsNeedingBackup_def markLoop_object again)
  have three: "markSessionsNeedingBackup ss (setJsonItem store ?K (JObject ?m'))
                 = Inr (setJsonItem store ?K (JObject ?m'))"
    by (simp add: markSessionsNeedingBackup_def getJsonItem_setJsonItem or_else_def
          markLoop_object again setJsonItem_twice)
  have flag: "\<forall>x \<in> set ss. filter (\<lambda>kv. fst kv = flagKey x) ?m' = [(flagKey x, JBool True)]"
    using distinct_marked [OF assms(2)] by (auto intro!: filter_key_distinct simp: map_of_marked)
  have keep: "\<forall>k v. map_of m k = Some v \<and> k \<notin> flagKey ` set ss \<longrightarrow> map_of ?m' k = Some v"
    by (simp add: map_of_marked)
  have true: "\<forall>k. map_of m k = Some (JBool True) \<longrightarrow> map_of ?m' k = Some (JBool True)"
    by (simp add: map_of_marked)
  have sub: "fst ` set m \<subseteq> fst ` set ?m'"
    by (simp add: keys_marked)
  from one two three flag keep true sub show ?thesis
    by (intro exI [of _ ?m']) simp
qed

theorem markSessionsNeedingBackup_idempotent_monotone_witness:
  "or_else (getJsonItem [] KEY_SESSIONS_NEEDING_BACKUP) (JObject []) = JObject []
   \<and> distinct (map fst ([] :: (string \<times> json) list))
   \<and> markSessionsNeedingBackup
       [\<lparr>senderKey = ''hPQNcabIABgGnx3/ACv/jmMmiQHoeFfuLB17tzWp6Hw'', sessionId = ''abc''\<rparr>,
        \<lparr>senderKey = ''hPQNcabIABgGnx3/ACv/jmMmiQHoeFfuLB17tzWp6Hw'', sessionId = ''abc''\<rparr>] []
     = Inr [(''crypto.sessionsneedingbackup'',
             Valid (JObject [(''hPQNcabIABgGnx3/ACv/jmMmiQHoeFfuLB17tzWp6Hw/abc'', JBool True)]))]
   \<and> markSessionsNeedingBackup
       [\<lparr>senderKey = ''hPQNcabIABgGnx3/ACv/jmMmiQHoeFfuLB17tzWp6Hw'', sessionId = ''abc''\<rparr>] []
     = Inr [(''crypto.sessionsneedingbackup'',
             Valid (JObject [(''hPQNcabIABgGnx3/ACv/jmMmiQHoeFfuLB17tzWp6Hw/abc'', JBool True)]))]"
proof -
  let ?x = "\<lparr>senderKey = ''hPQNcabIABgGnx3/ACv/jmMmiQHoeFfuLB17tzWp6Hw'', sessionId = ''abc''\<rparr>"
  have h1: "or_else (getJsonItem [] KEY_SESSIONS_NEEDING_BACKUP) (JObject []) = JObject []"
    by (simp add: getJsonItem_def getItem_def or_else_def)
  have h2: "distinct (map fst ([] :: (string \<times> json) list))" by simp
  have e: "markSessionsNeedingBackup [?x] []
     = Inr [(''crypto.sessionsneedingbackup'',
             Valid (JObject [(''hPQNcabIABgGnx3/ACv/jmMmiQHoeFfuLB17tzWp6Hw/abc'', JBool True)]))]"
    by (simp add: markSessionsNeedingBackup_def getJsonItem_def getItem_def or_else_def
          setJsonItem_def setItem_def key_defs)
  from markSessionsNeedingBackup_idempotent_monotone [OF h1 h2, of "[?x]"]
  have "markSessionsNeedingBackup ([?x] @ [?x]) [] = markSessionsNeedingBackup [?x] []"
    by blast
  with e h1 h2 show ?thesis by simp
qed

subsection \<open>Stored text that does not parse\<close>

text \<open>
  Claim C9, as the code has it. For a key whose stored text does not parse,
  \<^verbatim>\<open>getJsonItem\<close> returns \<^verbatim>\<open>null\<close>, and for every key it returns what it returns once
  that key is removed. The reads that look a key up by name (migration state, account,
  cross-signing keys, secret-store keys, an inbound group session with its withheld
  record, the sessions of a device) and \<^verbatim>\<open>countEndToEndSessions\<close> return what they
  return without the key; so does \<^verbatim>\<open>getEndToEndSessionsBatch\<close> when the scan recovers
  the device key from the key, and so do the scans of rooms and of inbound group
  sessions when the key is not under their prefix; an unreadable backup index raises
  no fault in the inbound batch. The reads that look at the names of the keys only still
  see the key: \<^verbatim>\<open>countEndToEndInboundGroupSessions\<close> counts it when it is under the prefix
  of inbound group sessions (once, the keys of a storage being distinct), and
  \<^verbatim>\<open>containsData\<close> reports data when it is under the prefix of the module.
\<close>

theorem malformed_value_reads_as_null:
  assumes "getItem store key = Some (Invalid s)"
  shows "getJsonItem store key = JNull
       \<and> (\<forall>k. getJsonItem store k = getJsonItem (removeItem store key) k)
       \<and> (\<forall>ns. fst (getMigrationState ns store) = fst (getMigrationState ns (removeItem store key)))
       \<and> fst (getAccount store) = fst (getAccount (removeItem store key))
       \<and> fst (getCrossSigningKeys store) = fst (getCrossSigningKeys (removeItem store key))
       \<and> (\<forall>t. fst (getSecretStorePrivateKey t store)
                = fst (getSecretStorePrivateKey t (removeItem store key)))
       \<and> (\<forall>K S. fst (getEndToEndInboundGroupSession K S store)
                = fst (getEndToEndInboundGroupSession K S (removeItem store key)))
       \<and> (\<forall>h D S. fst (getEndToEndSession h D S store)
                = fst (getEndToEndSession h D S (removeItem store key)))
       \<and> (\<forall>D. fst (getEndToEndSessions D store) = fst (getEndToEndSessions D (removeItem store key)))
       \<and> fst (countEndToEndSessions store) = fst (countEndToEndSessions (removeItem store key))
       \<and> (\<forall>n. \<not> startsWith key (keyEndToEndSessions [])
                 \<or> keyEndToEndSessions (second (split CHR ''/'' key)) = key \<longrightarrow>
             fst (getEndToEndSessionsBatch n store)
               = fst (getEndToEndSessionsBatch n (removeItem store key)))
       \<and> (\<not> startsWith key (keyEndToEndRoomsPrefix []) \<longrightarrow>
             fst (getEndToEndRooms store) = fst (getEndToEndRooms (removeItem store key)))
       \<and> (\<forall>h n. \<not> startsWith key KEY_INBOUND_SESSION_PREFIX \<longrightarrow>
             fst (getEndToEndInboundGroupSessionsBatch h n store)
               = fst (getEndToEndInboundGroupSessionsBatch h n (removeItem store key)))
       \<and> (\<forall>h n. key = KEY_SESSIONS_NEEDING_BACKUP \<longrightarrow>
             (\<exists>r. fst (getEndToEndInboundGroupSessionsBatch h n store) = Inr r))
       \<and> fst (countEndToEndInboundGroupSessions store)
           = fst (countEndToEndInboundGroupSessions (removeItem store key))
             + (if startsWith key KEY_INBOUND_SESSION_PREFIX then count_list (keys store) key else 0)
       \<and> 1 \<le> count_list (keys store) key
       \<and> (distinct (keys store) \<longrightarrow> count_list (keys store) key = 1)
       \<and> (startsWith key E2E_PREFIX \<longrightarrow> fst (containsData store))"
proof -
  let ?st = "removeItem store key"
  note nul = getJsonItem_invalid [OF assms]
  note rem = getJsonItem_invalid_removed [OF assms]
  have same: "\<forall>k. getJsonItem store k = getJsonItem ?st k"
    by (simp add: rem)
  have inkeys: "key \<in> set (keys store)"
    using assms by (rule getItem_in_keys)
  have priv: "priv_getEndToEndSessions ?st D = priv_getEndToEndSessions store D" for D
    by (simp add: priv_getEndToEndSessions_def rem)
  have "storedCount store key = 0"
    by (simp add: storedCount_def nul nullish_or_def Object_keys_def)
  with countEndToEndSessions_removeItem [of store key]
  have cnt: "fst (countEndToEndSessions store) = fst (countEndToEndSessions ?st)"
    by simp
  have batch: "\<forall>n. \<not> startsWith key (keyEndToEndSessions [])
                 \<or> keyEndToEndSessions (second (split CHR ''/'' key)) = key \<longrightarrow>
             fst (getEndToEndSessionsBatch n store) = fst (getEndToEndSessionsBatch n ?st)"
  proof (intro allI impI)
    fix n
    assume a: "\<not> startsWith key (keyEndToEndSessions [])
          \<or> keyEndToEndSessions (second (split CHR ''/'' key)) = key"
    have "startsWith key (keyEndToEndSessions []) \<longrightarrow>
        map snd (ownProps (priv_getEndToEndSessions store (second (split CHR ''/'' key)))) = []"
    proof
      assume "startsWith key (keyEndToEndSessions [])"
      with a have "keyEndToEndSessions (second (split CHR ''/'' key)) = key" by simp
      with nul have "priv_getEndToEndSessions store (second (split CHR ''/'' key)) = emptyObject"
        by (simp add: priv_getEndToEndSessions_null)
      then show "map snd (ownProps (priv_getEndToEndSessions store (second (split CHR ''/'' key)))) = []"
        by (simp add: emptyObject_def)
    qed
    then have "scannedSessions ?st = scannedSessions store"
      unfolding scannedSessions_def keys_removeItem priv
      by (rule concat_removeAll_nil)
    then show "fst (getEndToEndSessionsBatch n store) = fst (getEndToEndSessionsBatch n ?st)"
      by (simp add: getEndToEndSessionsBatch_flat)
  qed
  have rooms_same: "\<not> startsWith key (keyEndToEndRoomsPrefix []) \<longrightarrow>
      fst (getEndToEndRooms store) = fst (getEndToEndRooms ?st)"
  proof
    assume a: "\<not> startsWith key (keyEndToEndRoomsPrefix [])"
    from roomsLoop_removed [OF a, of ?st store "keys store" emptyObject] show
      "fst (getEndToEndRooms store) = fst (getEndToEndRooms ?st)"
      by (simp add: getEndToEndRooms_def keys_removeItem rem)
  qed
  have inbound_same: "\<forall>h n. \<not> startsWith key KEY_INBOUND_SESSION_PREFIX \<longrightarrow>
      fst (getEndToEndInboundGroupSessionsBatch h n store)
        = fst (getEndToEndInboundGroupSessionsBatch h n ?st)"
  proof (intro allI impI)
    fix h n
    assume a: "\<not> startsWith key KEY_INBOUND_SESSION_PREFIX"
    from inboundBatchLoop_removed [OF a, of ?st store h n _ "keys store" "[]"]
    show "fst (getEndToEndInboundGroupSessionsBatch h n store)
        = fst (getEndToEndInboundGroupSessionsBatch h n ?st)"
      by (simp add: getEndToEndInboundGroupSessionsBatch_def keys_removeItem rem)
  qed
  have no_fault: "\<forall>h n. key = KEY_SESSIONS_NEEDING_BACKUP \<longrightarrow>
      (\<exists>r. fst (getEndToEndInboundGroupSessionsBatch h n store) = Inr r)"
  proof (intro allI impI)
    fix h n
    assume "key = KEY_SESSIONS_NEEDING_BACKUP"
    with nul have "or_else (getJsonItem store KEY_SESSIONS_NEEDING_BACKUP) (JObject []) = JObject []"
      by (simp add: or_else_def)
    then show "\<exists>r. fst (getEndToEndInboundGroupSessionsBatch h n store) = Inr r"
      by (intro getEndToEndInboundGroupSessionsBatch_total) blast
  qed
  have "length (filter (\<lambda>k. startsWith k KEY_INBOUND_SESSION_PREFIX) (keys store))
      = length (filter (\<lambda>k. startsWith k KEY_INBOUND_SESSION_PREFIX) (removeAll key (keys store)))
        + (if startsWith key KEY_INBOUND_SESSION_PREFIX then count_list (keys store) key else 0)"
    by (induction store) (auto simp: keys_def)
  then have listed: "fst (countEndToEndInboundGroupSessions store)
           = fst (countEndToEndInboundGroupSessions ?st)
             + (if startsWith key KEY_INBOUND_SESSION_PREFIX then count_list (keys store) key else 0)"
    by (simp add: countEndToEndInboundGroupSessions_def keys_removeItem)
  from inkeys have once: "1 \<le> count_list (keys store) key" by (rule count_list_member)
  from inkeys have one: "distinct (keys store) \<longrightarrow> count_list (keys store) key = 1"
    by (simp add: count_list_distinct)
  from inkeys have data: "startsWith key E2E_PREFIX \<longrightarrow> fst (containsData store)"
    by (auto simp: containsData_def exists_store_def list_ex_iff)
  have m: "\<forall>ns. fst (getMigrationState ns store) = fst (getMigrationState ns ?st)"
    by (simp add: getMigrationState_def rem)
  have a: "fst (getAccount store) = fst (getAccount ?st)"
    by (simp add: getAccount_def rem)
  have x: "fst (getCrossSigningKeys store) = fst (getCrossSigningKeys ?st)"
    by (simp add: getCrossSigningKeys_def rem)
  have p: "\<forall>t. fst (getSecretStorePrivateKey t store) = fst (getSecretStorePrivateKey t ?st)"
    by (simp add: getSecretStorePrivateKey_def rem)
  have g: "\<forall>K S. fst (getEndToEndInboundGroupSession K S store)
                = fst (getEndToEndInboundGroupSession K S ?st)"
    by (simp add: getEndToEndInboundGroupSession_def rem)
  have o: "\<forall>h D S. fst (getEndToEndSession h D S store) = fst (getEndToEndSession h D S ?st)"
    by (simp add: getEndToEndSession_def priv)
  have os: "\<forall>D. fst (getEndToEndSessions D store) = fst (getEndToEndSessions D ?st)"
    by (simp add: getEndToEndSessions_def priv)
  from nul same m a x p g o os cnt batch rooms_same inbound_same no_fault listed once one data
  show ?thesis
    by (intro conjI)
qed

theorem malformed_value_reads_as_null_witness:
  "getItem [(''crypto.account'', Invalid ''{'')] ''crypto.account'' = Some (Invalid ''{'')
   \<and> getJsonItem [(''crypto.account'', Invalid ''{'')] ''crypto.account'' = JNull
   \<and> removeItem [(''crypto.account'', Invalid ''{'')] ''crypto.account'' = []
   \<and> fst (getAccount [(''crypto.account'', Invalid ''{'')]) = fst (getAccount [])
   \<and> fst (getAccount []) = JNull
   \<and> startsWith ''crypto.account'' E2E_PREFIX
   \<and> fst (containsData [(''crypto.account'', Invalid ''{'')])"
proof -
  have h: "getItem [(''crypto.account'', Invalid ''{'')] ''crypto.account'' = Some (Invalid ''{'')"
    by (simp add: getItem_def)
  note t = malformed_value_reads_as_null [OF h]
  have r: "removeItem [(''crypto.account'', Invalid ''{'')] ''crypto.account'' = []"
    by (simp add: removeItem_def)
  from t have n: "getJsonItem [(''crypto.account'', Invalid ''{'')] ''crypto.account'' = JNull"
    by blast
  from t have "fst (getAccount [(''crypto.account'', Invalid ''{'')])
      = fst (getAccount (removeItem [(''crypto.account'', Invalid ''{'')] ''crypto.account''))"
    by blast
  with r have a: "fst (getAccount [(''crypto.account'', Invalid ''{'')]) = fst (getAccount [])"
    by simp
  have e: "fst (getAccount []) = JNull"
    by (simp add: getAccount_def getJsonItem_def getItem_def)
  have p: "startsWith ''crypto.account'' E2E_PREFIX"
    by (simp add: startsWith_def key_defs)
  with t have c: "fst (containsData [(''crypto.account'', Invalid ''{'')])"
    by blast
  from h n r a e p c show ?thesis by (intro conjI)
qed

text \<open>
  Claim C9, as it is stated, fails for a read that looks at the names of the keys only:
  an inbound group session whose stored text does not parse is still counted by
  \<^verbatim>\<open>countEndToEndInboundGroupSessions\<close>, whereas without the key the count is zero.
\<close>

theorem malformed_inbound_session_still_counted:
  "getItem [(''crypto.inboundgroupsessions/hPQNcabIABgGnx3/ACv/jmMmiQHoeFfuLB17tzWp6Hw/abc'',
             Invalid ''{'')]
       ''crypto.inboundgroupsessions/hPQNcabIABgGnx3/ACv/jmMmiQHoeFfuLB17tzWp6Hw/abc''
     = Some (Invalid ''{'')
   \<and> fst (countEndToEndInboundGroupSessions
       [(''crypto.inboundgroupsessions/hPQNcabIABgGnx3/ACv/jmMmiQHoeFfuLB17tzWp6Hw/abc'',
         Invalid ''{'')]) = 1
   \<and> fst (countEndToEndInboundGroupSessions
       (removeItem
          [(''crypto.inboundgroupsessions/hPQNcabIABgGnx3/ACv/jmMmiQHoeFfuLB17tzWp6Hw/abc'',
            Invalid ''{'')]
          ''crypto.inboundgroupsessions/hPQNcabIABgGnx3/ACv/jmMmiQHoeFfuLB17tzWp6Hw/abc'')) = 0"
  by (simp add: getItem_def removeItem_def countEndToEndInboundGroupSessions_def keys_def
        startsWith_def key_defs)

subsection \<open>Storing an Olm session\<close>

text \<open>
  Claim C10, as the code has it. For every device key \<open>D\<close>, with or without a record,
  \<^verbatim>\<open>storeEndToEndSession(D, S, info)\<close> stores under the key of \<open>D\<close> the own properties of
  the mapping that \<^verbatim>\<open>getEndToEndSessions\<close> returns for \<open>D\<close>, after the assignment of
  \<open>info\<close> to \<open>S\<close>, and changes no other key. In the stored mapping \<open>S\<close> is bound to
  \<open>info\<close> unless \<open>S\<close> is \<^verbatim>\<open>__proto__\<close>; every other name is bound as in the decoded
  mapping, so that no other session is a bare string: a session of \<open>D\<close> under a name other
  than \<open>S\<close> and \<^verbatim>\<open>__proto__\<close> that was stored as a bare string \<open>s\<close> is stored as
  \<^verbatim>\<open>{session: s}\<close>, and one stored as another value keeps it. The names of the stored
  mapping are distinct and in enumeration order. For a device without a readable record
  the stored mapping is \<^verbatim>\<open>{S: info}\<close>.
\<close>

theorem storeEndToEndSession_persists_upgrade:
  "getItem (storeEndToEndSession D S info store) (keyEndToEndSessions D)
     = Some (Valid (JObject (ownProps (assign (fst (getEndToEndSessions D store)) S info))))
   \<and> (\<forall>k. k \<noteq> keyEndToEndSessions D \<longrightarrow>
         getItem (storeEndToEndSession D S info store) k = getItem store k)
   \<and> (S \<noteq> ''__proto__'' \<longrightarrow>
         map_of (ownProps (assign (fst (getEndToEndSessions D store)) S info)) S = Some info)
   \<and> (\<forall>k. k \<noteq> S \<longrightarrow>
         map_of (ownProps (assign (fst (getEndToEndSessions D store)) S info)) k
           = map_of (ownProps (fst (getEndToEndSessions D store))) k)
   \<and> (\<forall>k v t. k \<noteq> S
         \<and> map_of (ownProps (assign (fst (getEndToEndSessions D store)) S info)) k = Some v \<longrightarrow>
         v \<noteq> JString t)
   \<and> (\<forall>m S' s. getItem store (keyEndToEndSessions D) = Some (Valid (JObject m))
         \<and> distinct (map fst m) \<and> S' \<noteq> S \<and> S' \<noteq> ''__proto__''
         \<and> map_of m S' = Some (JString s) \<longrightarrow>
         map_of (ownProps (assign (fst (getEndToEndSessions D store)) S info)) S'
           = Some (JObject [(''session'', JString s)]))
   \<and> (\<forall>m S' v. getItem store (keyEndToEndSessions D) = Some (Valid (JObject m))
         \<and> distinct (map fst m) \<and> S' \<noteq> S \<and> S' \<noteq> ''__proto__''
         \<and> map_of m S' = Some v \<and> (\<forall>s. v \<noteq> JString s) \<longrightarrow>
         map_of (ownProps (assign (fst (getEndToEndSessions D store)) S info)) S' = Some v)
   \<and> distinct (map fst (ownProps (assign (fst (getEndToEndSessions D store)) S info)))
   \<and> orderedKeys (map fst (ownProps (assign (fst (getEndToEndSessions D store)) S info)))
   \<and> (S \<noteq> ''__proto__'' \<and> getJsonItem store (keyEndToEndSessions D) = JNull \<longrightarrow>
         getItem (storeEndToEndSession D S info store) (keyEndToEndSessions D)
           = Some (Valid (JObject [(S, info)])))"
proof -
  let ?key = "keyEndToEndSessions D"
  let ?ds = "priv_getEndToEndSessions store D"
  let ?ps = "ownProps (assign ?ds S info)"
  have ds: "fst (getEndToEndSessions D store) = ?ds"
    by (simp add: getEndToEndSessions_def)
  have c1: "getItem (storeEndToEndSession D S info store) ?key = Some (Valid (JObject ?ps))"
    by (simp add: storeEndToEndSession_def Let_def stringify_def getItem_setJsonItem)
  have c2: "\<forall>k. k \<noteq> ?key \<longrightarrow> getItem (storeEndToEndSession D S info store) k = getItem store k"
    by (simp add: storeEndToEndSession_def Let_def getItem_setJsonItem)
  have c3: "S \<noteq> ''__proto__'' \<longrightarrow> map_of ?ps S = Some info"
    by (simp add: map_of_assign_same)
  have c4: "\<forall>k. k \<noteq> S \<longrightarrow> map_of ?ps k = map_of (ownProps ?ds) k"
    by (simp add: map_of_assign_other)
  have c5: "\<forall>k v t. k \<noteq> S \<and> map_of ?ps k = Some v \<longrightarrow> v \<noteq> JString t"
  proof (intro allI impI)
    fix k v t
    assume "k \<noteq> S \<and> map_of ?ps k = Some v"
    with c4 have "map_of (ownProps ?ds) k = Some v" by metis
    then have "(k, v) \<in> set (ownProps ?ds)" by (rule map_of_SomeD)
    then show "v \<noteq> JString t" by (rule priv_getEndToEndSessions_no_string)
  qed
  have old: "map_of ?ps S' = Some (fixSession v)"
    if "getItem store ?key = Some (Valid (JObject m))" "distinct (map fst m)" "S' \<noteq> S"
      "S' \<noteq> ''__proto__''" "map_of m S' = Some v" for m S' v
  proof -
    from that(1) have "?ds = fixLoop m emptyObject" by (rule priv_getEndToEndSessions_object)
    with fixLoop_lookup_parsed [OF that(2,4)] that(5)
    have "map_of (ownProps ?ds) S' = Some (fixSession v)" by simp
    with c4 that(3) show ?thesis by simp
  qed
  have c6: "\<forall>m S' s. getItem store ?key = Some (Valid (JObject m))
         \<and> distinct (map fst m) \<and> S' \<noteq> S \<and> S' \<noteq> ''__proto__''
         \<and> map_of m S' = Some (JString s) \<longrightarrow>
         map_of ?ps S' = Some (JObject [(''session'', JString s)])"
  proof (intro allI impI)
    fix m S' s
    assume "getItem store ?key = Some (Valid (JObject m))
         \<and> distinct (map fst m) \<and> S' \<noteq> S \<and> S' \<noteq> ''__proto__''
         \<and> map_of m S' = Some (JString s)"
    then have "map_of ?ps S' = Some (fixSession (JString s))" by (intro old [of m]) simp_all
    then show "map_of ?ps S' = Some (JObject [(''session'', JString s)])"
      by (simp add: fixSession_string)
  qed
  have c7: "\<forall>m S' v. getItem store ?key = Some (Valid (JObject m))
         \<and> distinct (map fst m) \<and> S' \<noteq> S \<and> S' \<noteq> ''__proto__''
         \<and> map_of m S' = Some v \<and> (\<forall>s. v \<noteq> JString s) \<longrightarrow>
         map_of ?ps S' = Some v"
  proof (intro allI impI)
    fix m S' v
    assume a: "getItem store ?key = Some (Valid (JObject m))
         \<and> distinct (map fst m) \<and> S' \<noteq> S \<and> S' \<noteq> ''__proto__''
         \<and> map_of m S' = Some v \<and> (\<forall>s. v \<noteq> JString s)"
    then have "map_of ?ps S' = Some (fixSession v)" by (intro old [of m]) simp_all
    moreover from a have "fixSession v = v" by (intro fixSession_id) simp
    ultimately show "map_of ?ps S' = Some v" by simp
  qed
  have c8: "distinct (map fst ?ps)"
    by (intro distinct_assign priv_getEndToEndSessions_distinct)
  have c9: "orderedKeys (map fst ?ps)"
    by (intro orderedKeys_assign priv_getEndToEndSessions_ordered)
  have c10: "S \<noteq> ''__proto__'' \<and> getJsonItem store ?key = JNull \<longrightarrow>
         getItem (storeEndToEndSession D S info store) ?key = Some (Valid (JObject [(S, info)]))"
  proof
    assume a: "S \<noteq> ''__proto__'' \<and> getJsonItem store ?key = JNull"
    then have "?ds = emptyObject" by (simp add: priv_getEndToEndSessions_null)
    with a have "?ps = [(S, info)]"
      by (simp add: assign_def emptyObject_def)
    with c1 show "getItem (storeEndToEndSession D S info store) ?key
        = Some (Valid (JObject [(S, info)]))"
      by simp
  qed
  from c1 c2 c3 c4 c5 c6 c7 c8 c9 c10 show ?thesis
    unfolding ds by (intro conjI)
qed

theorem storeEndToEndSession_persists_upgrade_witness:
  "getItem [(''crypto.sessions/dev'', Valid (JObject [(''old'', JString ''pickle'')]))]
       (keyEndToEndSessions ''dev'')
     = Some (Valid (JObject [(''old'', JString ''pickle'')]))
   \<and> distinct (map fst [(''old'', JString ''pickle'')])
   \<and> ''old'' \<noteq> ''1'' \<and> ''old'' \<noteq> ''__proto__''
   \<and> map_of [(''old'', JString ''pickle'')] ''old'' = Some (JString ''pickle'')
   \<and> map_of (ownProps (assign (fst (getEndToEndSessions ''dev''
          [(''crypto.sessions/dev'', Valid (JObject [(''old'', JString ''pickle'')]))]))
        ''1'' (JObject [(''session'', JString ''p2'')]))) ''old''
       = Some (JObject [(''session'', JString ''pickle'')])
   \<and> storeEndToEndSession ''dev'' ''1'' (JObject [(''session'', JString ''p2'')])
         [(''crypto.sessions/dev'', Valid (JObject [(''old'', JString ''pickle'')]))]
     = [(''crypto.sessions/dev'',
         Valid (JObject [(''1'', JObject [(''session'', JString ''p2'')]),
                         (''old'', JObject [(''session'', JString ''pickle'')])]))]
   \<and> storeEndToEndSession ''dev'' ''new'' (JObject [(''session'', JString ''p2'')])
         [(''crypto.sessions/dev'', Valid (JObject [(''old'', JString ''pickle'')]))]
     = [(''crypto.sessions/dev'',
         Valid (JObject [(''old'', JObject [(''session'', JString ''pickle'')]),
                         (''new'', JObject [(''session'', JString ''p2'')])]))]
   \<and> storeEndToEndSession ''dev'' ''new'' (JObject [(''session'', JString ''p2'')]) []
     = [(''crypto.sessions/dev'', Valid (JObject [(''new'', JObject [(''session'', JString ''p2'')])]))]"
proof -
  let ?m = "[(''old'', JString ''pickle'')]"
  let ?st = "[(''crypto.sessions/dev'', Valid (JObject ?m))]"
  let ?info = "JObject [(''session'', JString ''p2'')]"
  have h1: "getItem ?st (keyEndToEndSessions ''dev'') = Some (Valid (JObject ?m))"
    by (simp add: getItem_def key_defs)
  have h2: "distinct (map fst ?m)" by simp
  have h3: "''old'' \<noteq> ''1''" by simp
  have h5: "''old'' \<noteq> ''__proto__''" by simp
  have i1: "arrayIndex ''1'' = Some 1"
    by (simp add: arrayIndex_def digitsValue_def decimal.simps digit_char_def)
  have i2: "arrayIndex ''old'' = None"
    by (simp add: arrayIndex_def digitsValue_def decimal.simps digit_char_def)
  have i3: "arrayIndex ''new'' = None"
    by (simp add: arrayIndex_def digitsValue_def decimal.simps digit_char_def)
  have h4: "map_of ?m ''old'' = Some (JString ''pickle'')" by simp
  note t = storeEndToEndSession_persists_upgrade [of "''dev''" "''1''" ?info ?st]
  note u = t [THEN conjunct2, THEN conjunct2, THEN conjunct2, THEN conjunct2, THEN conjunct2,
    THEN conjunct1, rule_format, of ?m "''old''" "''pickle''"]
  from u h1 h2 h3 h5 h4
  have a: "map_of (ownProps (assign (fst (getEndToEndSessions ''dev'' ?st)) ''1'' ?info)) ''old''
      = Some (JObject [(''session'', JString ''pickle'')])"
    by blast
  have b: "storeEndToEndSession ''dev'' ''1'' ?info ?st
     = [(''crypto.sessions/dev'',
         Valid (JObject [(''1'', ?info), (''old'', JObject [(''session'', JString ''pickle'')])]))]"
    by (simp add: storeEndToEndSession_def priv_getEndToEndSessions_def getJsonItem_def getItem_def
          or_else_def key_defs fixSession_def emptyObject_def assign_def precedes_def i1 i2 i3
          stringify_def setJsonItem_def setItem_def)
  have c: "storeEndToEndSession ''dev'' ''new'' ?info ?st
     = [(''crypto.sessions/dev'',
         Valid (JObject [(''old'', JObject [(''session'', JString ''pickle'')]), (''new'', ?info)]))]"
    by (simp add: storeEndToEndSession_def priv_getEndToEndSessions_def getJsonItem_def getItem_def
          or_else_def key_defs fixSession_def emptyObject_def assign_def precedes_def i1 i2 i3
          stringify_def setJsonItem_def setItem_def)
  have d: "storeEndToEndSession ''dev'' ''new'' ?info []
     = [(''crypto.sessions/dev'', Valid (JObject [(''new'', ?info)]))]"
    by (simp add: storeEndToEndSession_def priv_getEndToEndSessions_def getJsonItem_def getItem_def
          or_else_def key_defs emptyObject_def assign_def stringify_def setJsonItem_def setItem_def)
  from h1 h2 h3 h5 h4 a b c d show ?thesis by (intro conjI)
qed

text \<open>
  Claim C10, as it is stated, fails for a legacy session stored under the name
  \<^verbatim>\<open>__proto__\<close>: decoding makes it the prototype of the mapping, no property of it, so
  the write stores the mapping without that session, in no form.
\<close>

theorem storeEndToEndSession_drops_proto_session:
  "map_of [(''__proto__'', JString ''pickle'')] ''__proto__'' = Some (JString ''pickle'')
   \<and> storeEndToEndSession ''dev'' ''new'' (JObject [(''session'', JString ''p2'')])
         [(''crypto.sessions/dev'', Valid (JObject [(''__proto__'', JString ''pickle'')]))]
     = [(''crypto.sessions/dev'', Valid (JObject [(''new'', JObject [(''session'', JString ''p2'')])]))]
   \<and> map_of [(''new'', JObject [(''session'', JString ''p2'')])] ''__proto__'' = None"
  by (simp add: storeEndToEndSession_def priv_getEndToEndSessions_def getJsonItem_def getItem_def
        or_else_def key_defs fixSession_def emptyObject_def assign_def stringify_def
        setJsonItem_def setItem_def)

end
